theory Spec2Isabelle
  imports Main "HOL-Library.Word" "HOL-Library.Monad_Syntax"
begin

section \<open>Versions and version chains (skiplist\_mvcc.h)\<close>

text \<open>
  Timestamps are \<open>uint64_t\<close> transaction identifiers.  \<open>UINT64_MAX\<close> is the
  "not deleted" sentinel of \<open>delete_ts\<close>.
\<close>

type_synonym ts = "64 word"

definition UINT64_MAX :: ts where
  "UINT64_MAX = 0xFFFFFFFFFFFFFFFF"

text \<open>
  \<open>struct Version\<close>: the field \<open>value\<close> is called \<open>val\<close> here; the \<open>next\<close>
  pointer is the tail of the list that holds the chain, newest version first.
\<close>

record 'v version =
  val :: 'v
  create_ts :: ts
  delete_ts :: ts
  is_committed :: bool

type_synonym 'v chain = "'v version list"

text \<open>Constructor \<open>Version(v, create, del = UINT64_MAX)\<close>.\<close>

definition Version :: "'v \<Rightarrow> ts \<Rightarrow> 'v version" where
  "Version v create = \<lparr>val = v, create_ts = create, delete_ts = UINT64_MAX, is_committed = False\<rparr>"

definition is_visible :: "'v version \<Rightarrow> ts \<Rightarrow> bool" where
  "is_visible ver txn_id =
     (if create_ts ver = txn_id then delete_ts ver > txn_id
      else is_committed ver \<and> create_ts ver < txn_id \<and> delete_ts ver > txn_id)"

text \<open>\<open>NodeMVCC::add_version\<close>: the new version becomes the head.\<close>

definition add_version :: "'v chain \<Rightarrow> 'v \<Rightarrow> ts \<Rightarrow> 'v chain" where
  "add_version version_head v txn_id = Version v txn_id # version_head"

text \<open>\<open>NodeMVCC::get_visible_version\<close>: the loop over \<open>current\<close>; \<open>None\<close> is \<open>nullptr\<close>.\<close>

fun get_visible_version :: "'v chain \<Rightarrow> ts \<Rightarrow> 'v version option" where
  "get_visible_version [] txn_id = None"
| "get_visible_version (current # nxt) txn_id =
     (if is_visible current txn_id then Some current else get_visible_version nxt txn_id)"

text \<open>\<open>NodeMVCC::mark_deleted\<close>: only the head version is touched.\<close>

fun mark_deleted :: "'v chain \<Rightarrow> ts \<Rightarrow> 'v chain" where
  "mark_deleted [] txn_id = []"
| "mark_deleted (version_head # nxt) txn_id = version_head\<lparr>delete_ts := txn_id\<rparr> # nxt"

text \<open>\<open>NodeMVCC::commit_version\<close>.\<close>

fun commit_version :: "'v chain \<Rightarrow> ts \<Rightarrow> 'v chain" where
  "commit_version [] txn_id = []"
| "commit_version (current # nxt) txn_id =
     (if create_ts current = txn_id then current\<lparr>is_committed := True\<rparr> else current)
       # commit_version nxt txn_id"

text \<open>
  \<open>NodeMVCC::gc_versions\<close>: the head is kept; \<open>gc_tail\<close> is the loop over
  \<open>current\<close> from the second version on.
\<close>

fun gc_tail :: "'v chain \<Rightarrow> ts \<Rightarrow> 'v chain" where
  "gc_tail [] min_active_txn_id = []"
| "gc_tail (current # nxt) min_active_txn_id =
     (if delete_ts current < min_active_txn_id then gc_tail nxt min_active_txn_id
      else current # gc_tail nxt min_active_txn_id)"

fun gc_versions :: "'v chain \<Rightarrow> ts \<Rightarrow> 'v chain" where
  "gc_versions [] min_active_txn_id = []"
| "gc_versions (version_head # nxt) min_active_txn_id =
     version_head # gc_tail nxt min_active_txn_id"

section \<open>Nodes and the node pool (skiplist\_optimized.h, memory\_pool.h)\<close>

text \<open>
  Nodes live in a heap and are named by their address; \<open>None\<close> is the null pointer.
  \<open>NodeOpt\<close> and \<open>NodeMVCC\<close> share the fields \<open>key\<close>, \<open>forward\<close> and
  \<open>node_level\<close>; \<open>NodeOpt\<close> adds \<open>value\<close> (here \<open>val_opt\<close>) and \<open>NodeMVCC\<close>
  adds \<open>version_head\<close>.
\<close>

type_synonym addr = nat

record 'k node =
  key :: 'k
  forward :: "addr option list"
  node_level :: nat

record ('k, 'v) NodeOpt = "'k node" +
  val_opt :: 'v

record ('k, 'v) NodeMVCC = "'k node" +
  version_head :: "'v chain"

text \<open>
  Constructor \<open>NodeOpt(k, v, level)\<close>: the array has \<open>level + 1\<close> slots
  ("because array index is from 0 - level"), all null.
\<close>

definition new_NodeOpt :: "'k \<Rightarrow> 'v \<Rightarrow> nat \<Rightarrow> ('k, 'v) NodeOpt" where
  "new_NodeOpt k v level =
     \<lparr>key = k, forward = replicate (level + 1) None, node_level = level, val_opt = v\<rparr>"

text \<open>Constructor \<open>NodeMVCC(k, level)\<close>: no version yet.\<close>

definition new_NodeMVCC :: "'k \<Rightarrow> nat \<Rightarrow> ('k, 'v) NodeMVCC" where
  "new_NodeMVCC k level =
     \<lparr>key = k, forward = replicate (level + 1) None, node_level = level, version_head = []\<rparr>"

text \<open>
  \<open>class NodeMemoryPool\<close>.  The free list holds the recycled nodes; the last
  element is \<open>_free_list.back()\<close>.
\<close>

record ('k, 'v) NodeMemoryPool =
  free_list :: "('k, 'v) NodeOpt list"
  allocated_count :: int
  reused_count :: int

definition new_NodeMemoryPool :: "('k, 'v) NodeMemoryPool" where
  "new_NodeMemoryPool = \<lparr>free_list = [], allocated_count = 0, reused_count = 0\<rparr>"

text \<open>
  \<open>memset(node->forward, 0, sizeof(ptr) * n)\<close> clears the first \<open>n\<close> slots; it
  runs over the end of a shorter array, which is \<open>None\<close> here.
\<close>

definition memset_forward :: "addr option list \<Rightarrow> nat \<Rightarrow> addr option list option" where
  "memset_forward fwd n =
     (if n \<le> length fwd then Some (replicate n None @ drop n fwd) else None)"

text \<open>\<open>NodeMemoryPool::reinitialize_node\<close>.\<close>

definition reinitialize_node ::
  "('k, 'v) NodeOpt \<Rightarrow> 'k \<Rightarrow> 'v \<Rightarrow> nat \<Rightarrow> ('k, 'v) NodeOpt option" where
  "reinitialize_node n k v level =
     (let n1 = (if node_level n \<noteq> level
                then n\<lparr>forward := replicate (level + 1) None, node_level := level\<rparr>
                else n)
      in case memset_forward (forward n1) (level + 1) of
           None \<Rightarrow> None
         | Some fwd \<Rightarrow> Some (n1\<lparr>key := k, forward := fwd, val_opt := v\<rparr>))"

text \<open>\<open>NodeMemoryPool::allocate\<close>.\<close>

definition allocate ::
  "('k, 'v) NodeMemoryPool \<Rightarrow> 'k \<Rightarrow> 'v \<Rightarrow> nat
     \<Rightarrow> (('k, 'v) NodeOpt \<times> ('k, 'v) NodeMemoryPool) option" where
  "allocate pool k v level =
     (if free_list pool \<noteq> []
      then (case reinitialize_node (last (free_list pool)) k v level of
              None \<Rightarrow> None
            | Some n \<Rightarrow>
                Some (n, pool\<lparr>free_list := butlast (free_list pool),
                              reused_count := reused_count pool + 1\<rparr>))
      else Some (new_NodeOpt k v level,
                 pool\<lparr>allocated_count := allocated_count pool + 1\<rparr>))"







section \<open>The heap of nodes and the loops shared by both skip lists\<close>

text \<open>
  A heap is the list of the cells allocated so far: the address of a node is its
  index, a fresh node gets the next index, and a deleted node leaves \<open>None\<close> in its
  cell.  Every access is checked: reading through a null or dangling pointer, or
  indexing an array out of its bounds, is undefined behaviour in the source and
  \<open>None\<close> here.  A pointer loop that does not end is \<open>None\<close> as well.
\<close>

type_synonym ('k, 'z) heap = "('k, 'z) node_scheme option list"

definition node_at :: "('k, 'z) heap \<Rightarrow> addr \<Rightarrow> ('k, 'z) node_scheme option" where
  "node_at h a = (if a < length h then h ! a else None)"

definition slot :: "'a list \<Rightarrow> nat \<Rightarrow> 'a option" where
  "slot xs i = (if i < length xs then Some (xs ! i) else None)"

definition set_slot :: "'a list \<Rightarrow> nat \<Rightarrow> 'a \<Rightarrow> 'a list option" where
  "set_slot xs i v = (if i < length xs then Some (xs[i := v]) else None)"

text \<open>\<open>a->get_key()\<close>, \<open>a->forward[i]\<close> and \<open>a->forward[i] = q\<close>.\<close>

definition get_key :: "('k, 'z) heap \<Rightarrow> addr \<Rightarrow> 'k option" where
  "get_key h a = map_option key (node_at h a)"

definition get_forward :: "('k, 'z) heap \<Rightarrow> addr \<Rightarrow> nat \<Rightarrow> addr option option" where
  "get_forward h a i = Option.bind (node_at h a) (\<lambda>n. slot (forward n) i)"

definition set_forward ::
  "('k, 'z) heap \<Rightarrow> addr \<Rightarrow> nat \<Rightarrow> addr option \<Rightarrow> ('k, 'z) heap option" where
  "set_forward h a i q =
     Option.bind (node_at h a) (\<lambda>n.
     Option.bind (set_slot (forward n) i q) (\<lambda>fwd.
     Some (h[a := Some (n\<lparr>forward := fwd\<rparr>)])))"

text \<open>Dereferencing an entry of the \<open>update\<close> vector, whose entries start as null.\<close>

definition deref :: "addr option list \<Rightarrow> nat \<Rightarrow> addr option" where
  "deref update i = Option.bind (slot update i) (\<lambda>p. p)"

text \<open>
  The inner loop of every search:
  \<open>while (current->forward[i] != NULL && current->forward[i]->get_key() < key)
     current = current->forward[i];\<close>
\<close>

partial_function (option) advance ::
  "('k::linorder, 'z) heap \<Rightarrow> nat \<Rightarrow> 'k \<Rightarrow> addr \<Rightarrow> addr option" where
  "advance h i k current =
     Option.bind (get_forward h current i) (\<lambda>nx.
       case nx of
         None \<Rightarrow> Some current
       | Some p \<Rightarrow>
           Option.bind (get_key h p) (\<lambda>kp.
             if kp < k then advance h i k p else Some current))"

text \<open>
  The outer loop \<open>for (int i = _skip_list_level; i >= 0; i--)\<close> of
  \<open>search_element\<close>, of the MVCC \<open>delete_element\<close> and of \<open>range_query\<close>, which
  keep no \<open>update\<close> vector.
\<close>

fun seek :: "('k::linorder, 'z) heap \<Rightarrow> 'k \<Rightarrow> nat \<Rightarrow> addr \<Rightarrow> addr option" where
  "seek h k 0 current = advance h 0 k current"
| "seek h k (Suc i) current =
     Option.bind (advance h (Suc i) k current) (\<lambda>c. seek h k i c)"

text \<open>The same loop with \<open>update[i] = current\<close>, as in \<open>insert_element\<close>.\<close>

fun seek_update ::
  "('k::linorder, 'z) heap \<Rightarrow> 'k \<Rightarrow> nat \<Rightarrow> addr \<Rightarrow> addr option list
     \<Rightarrow> (addr \<times> addr option list) option" where
  "seek_update h k 0 current update =
     Option.bind (advance h 0 k current) (\<lambda>c.
     Option.bind (set_slot update 0 (Some c)) (\<lambda>u. Some (c, u)))"
| "seek_update h k (Suc i) current update =
     Option.bind (advance h (Suc i) k current) (\<lambda>c.
     Option.bind (set_slot update (Suc i) (Some c)) (\<lambda>u. seek_update h k i c u))"

text \<open>A counted \<open>for\<close> loop over the indices \<open>js\<close> whose body may fail.\<close>

fun for_each :: "nat list \<Rightarrow> (nat \<Rightarrow> 's \<Rightarrow> 's option) \<Rightarrow> 's \<Rightarrow> 's option" where
  "for_each [] body s = Some s"
| "for_each (j # js) body s = Option.bind (body j s) (for_each js body)"

text \<open>
  \<open>get_random_level\<close>: \<open>coins\<close> is the number of times \<open>rand() % 2\<close> came out
  non-zero before it came out zero.
\<close>

definition get_random_level :: "nat \<Rightarrow> nat \<Rightarrow> nat" where
  "get_random_level max_lvl coins = (let k = 1 + coins in if k < max_lvl then k else max_lvl)"

text \<open>
  \<open>for (int i = _skip_list_level + 1; i < random_level + 1; i++) update[i] = _header;\<close>
\<close>

definition raise_update ::
  "addr option list \<Rightarrow> addr \<Rightarrow> nat \<Rightarrow> nat \<Rightarrow> addr option list option" where
  "raise_update update hdr lvl random_level =
     for_each [lvl + 1 ..< random_level + 1] (\<lambda>i u. set_slot u i (Some hdr)) update"

text \<open>
  The body of the splicing loop:
  \<open>new_node->forward[i] = update[i]->forward[i]; update[i]->forward[i] = new_node;\<close>
\<close>

definition splice_level ::
  "addr option list \<Rightarrow> addr \<Rightarrow> nat \<Rightarrow> ('k, 'z) heap \<Rightarrow> ('k, 'z) heap option" where
  "splice_level update new_node i h =
     Option.bind (deref update i) (\<lambda>p.
     Option.bind (get_forward h p i) (\<lambda>nx.
     Option.bind (set_forward h new_node i nx) (\<lambda>h1.
     set_forward h1 p i (Some new_node))))"

definition splice_node ::
  "addr option list \<Rightarrow> addr \<Rightarrow> nat \<Rightarrow> ('k, 'z) heap \<Rightarrow> ('k, 'z) heap option" where
  "splice_node update new_node random_level h =
     for_each [0 ..< random_level + 1] (splice_level update new_node) h"

text \<open>
  The unsplicing loop of \<open>SkipListOptimized::delete_element\<close>, which breaks at the
  first level whose predecessor does not point to \<open>current\<close>.
\<close>

fun unsplice ::
  "nat list \<Rightarrow> addr option list \<Rightarrow> addr \<Rightarrow> ('k, 'z) heap \<Rightarrow> ('k, 'z) heap option" where
  "unsplice [] update current h = Some h"
| "unsplice (i # js) update current h =
     Option.bind (deref update i) (\<lambda>p.
     Option.bind (get_forward h p i) (\<lambda>f.
       if f \<noteq> Some current then Some h
       else Option.bind (get_forward h current i) (\<lambda>c.
            Option.bind (set_forward h p i c) (\<lambda>h1.
            unsplice js update current h1))))"

text \<open>
  \<open>while (_skip_list_level > 0 && _header->forward[_skip_list_level] == 0)
     _skip_list_level--;\<close>
\<close>

fun lower_level :: "('k, 'z) heap \<Rightarrow> addr \<Rightarrow> nat \<Rightarrow> nat option" where
  "lower_level h hdr 0 = Some 0"
| "lower_level h hdr (Suc l) =
     Option.bind (get_forward h hdr (Suc l)) (\<lambda>f.
       if f = None then lower_level h hdr l else Some (Suc l))"

text \<open>
  The walk of \<open>display_list\<close> along one level:
  \<open>while (node != NULL) { ... node->get_key() ...; node = node->forward[i]; }\<close>,
  collecting the keys it prints.
\<close>

partial_function (option) walk_keys ::
  "('k, 'z) heap \<Rightarrow> nat \<Rightarrow> addr option \<Rightarrow> 'k list \<Rightarrow> 'k list option" where
  "walk_keys h i node acc =
     (case node of
        None \<Rightarrow> Some acc
      | Some a \<Rightarrow>
          Option.bind (get_key h a) (\<lambda>k.
          Option.bind (get_forward h a i) (\<lambda>nx.
          walk_keys h i nx (acc @ [k]))))"

text \<open>The state both skip lists share.\<close>

record ('k, 'z) skiplist =
  max_level :: nat
  skip_list_level :: nat
  header :: addr
  heap :: "('k, 'z) heap"

text \<open>The keys \<open>display_list\<close> prints for level \<open>i\<close>.\<close>

definition level_keys :: "('k, 'z, 'w) skiplist_scheme \<Rightarrow> nat \<Rightarrow> 'k list option" where
  "level_keys s i =
     Option.bind (get_forward (heap s) (header s) i) (\<lambda>node. walk_keys (heap s) i node [])"

section \<open>The optimized skip list (skiplist\_optimized.h)\<close>

text \<open>
  \<open>class SkipListOptimized\<close>.  The locks are not modelled: every operation runs
  alone, from its first lock to its last unlock.
\<close>

record ('k, 'v) SkipListOptimized = "('k, ('v, unit) NodeOpt_ext) skiplist" +
  element_count :: int
  memory_pool :: "('k, 'v) NodeMemoryPool"

text \<open>
  The constructor.  \<open>hk\<close> and \<open>hv\<close> are the default-constructed key and value
  the header node is given; no operation reads them.
\<close>

definition new_SkipListOptimized :: "nat \<Rightarrow> 'k \<Rightarrow> 'v \<Rightarrow> ('k, 'v) SkipListOptimized" where
  "new_SkipListOptimized max_lvl hk hv =
     \<lparr>max_level = max_lvl, skip_list_level = 0, header = 0,
      heap = [Some (new_NodeOpt hk hv max_lvl)],
      element_count = 0, memory_pool = new_NodeMemoryPool\<rparr>"

text \<open>
  \<open>current != NULL && current->get_key() == key\<close> for the candidate \<open>current\<close>.
\<close>

definition key_matches :: "('k, 'z) heap \<Rightarrow> addr option \<Rightarrow> 'k \<Rightarrow> bool option" where
  "key_matches h current k =
     (case current of
        None \<Rightarrow> Some False
      | Some c \<Rightarrow> map_option (\<lambda>kc. kc = k) (get_key h c))"

text \<open>
  \<open>SkipListOptimized::insert_element\<close>; the result is the returned \<open>int\<close> and the
  new state.  \<open>create_node\<close> takes the node from the pool and the node gets the
  next free address.
\<close>

definition insert_element ::
  "('k::linorder, 'v) SkipListOptimized \<Rightarrow> 'k \<Rightarrow> 'v \<Rightarrow> nat
     \<Rightarrow> (int \<times> ('k, 'v) SkipListOptimized) option" where
  "insert_element s k v coins =
     Option.bind (seek_update (heap s) k (skip_list_level s) (header s)
                    (replicate (max_level s + 1) None)) (\<lambda>(pred, update).
     Option.bind (get_forward (heap s) pred 0) (\<lambda>current.
     Option.bind (key_matches (heap s) current k) (\<lambda>exists.
       if exists then Some (1, s)
       else
         let random_level = get_random_level (max_level s) coins in
         Option.bind (if random_level > skip_list_level s
                      then map_option (\<lambda>u. (u, random_level))
                             (raise_update update (header s) (skip_list_level s) random_level)
                      else Some (update, skip_list_level s)) (\<lambda>(update1, lvl).
         Option.bind (allocate (memory_pool s) k v random_level) (\<lambda>(n, pool).
         let inserted_node = length (heap s) in
         Option.bind (splice_node update1 inserted_node random_level (heap s @ [Some n])) (\<lambda>h.
           Some (0, s\<lparr>skip_list_level := lvl,
                       heap := h,
                       element_count := element_count s + 1,
                       memory_pool := pool\<rparr>)))))))"

text \<open>
  \<open>SkipListOptimized::search_element\<close>: the returned \<open>bool\<close> and what it prints
  ("Found key: k, value: v" or "Not Found Key: k").
\<close>

datatype ('k, 'v) found = Found 'k 'v | Not_Found 'k

definition search_element ::
  "('k::linorder, 'v) SkipListOptimized \<Rightarrow> 'k \<Rightarrow> (bool \<times> ('k, 'v) found) option" where
  "search_element s k =
     Option.bind (seek (heap s) k (skip_list_level s) (header s)) (\<lambda>pred.
     Option.bind (get_forward (heap s) pred 0) (\<lambda>current.
     Option.bind (key_matches (heap s) current k) (\<lambda>exists.
       if exists
       then Option.bind (Option.bind current (node_at (heap s))) (\<lambda>n.
              Some (True, Found k (val_opt n)))
       else Some (False, Not_Found k))))"

text \<open>
  \<open>SkipListOptimized::delete_element\<close>.  The node is deleted, not returned to the
  pool ("directly delete").
\<close>

definition delete_element ::
  "('k::linorder, 'v) SkipListOptimized \<Rightarrow> 'k \<Rightarrow> ('k, 'v) SkipListOptimized option" where
  "delete_element s k =
     Option.bind (seek_update (heap s) k (skip_list_level s) (header s)
                    (replicate (max_level s + 1) None)) (\<lambda>(pred, update).
     Option.bind (get_forward (heap s) pred 0) (\<lambda>current.
     Option.bind (key_matches (heap s) current k) (\<lambda>exists.
       if exists
       then Option.bind current (\<lambda>c.
            Option.bind (unsplice [0 ..< skip_list_level s + 1] update c (heap s)) (\<lambda>h.
            Option.bind (lower_level h (header s) (skip_list_level s)) (\<lambda>lvl.
              Some (s\<lparr>skip_list_level := lvl,
                      heap := h[c := None],
                      element_count := element_count s - 1\<rparr>))))
       else Some s)))"

text \<open>A sequence of calls on a fresh list.\<close>

datatype ('k, 'v) opt_op = Insert 'k 'v nat | Delete 'k

fun run_opt ::
  "('k::linorder, 'v) opt_op list \<Rightarrow> ('k, 'v) SkipListOptimized
     \<Rightarrow> ('k, 'v) SkipListOptimized option" where
  "run_opt [] s = Some s"
| "run_opt (Insert k v coins # ops) s =
     Option.bind (insert_element s k v coins) (\<lambda>(r, s1). run_opt ops s1)"
| "run_opt (Delete k # ops) s =
     Option.bind (delete_element s k) (run_opt ops)"

section \<open>The MVCC skip list (skiplist\_mvcc.h)\<close>

datatype TransactionState = ACTIVE | COMMITTED | ABORTED

text \<open>
  \<open>class Transaction\<close>; \<open>modified_nodes\<close> holds node addresses.  A transaction
  handle is a \<open>shared_ptr\<close>: \<open>None\<close> is the null handle, and every operation
  returns the transaction as it leaves it.
\<close>

record Transaction =
  txn_id :: ts
  state :: TransactionState
  modified_nodes :: "addr list"

definition new_Transaction :: "ts \<Rightarrow> Transaction" where
  "new_Transaction tid = \<lparr>txn_id = tid, state = ACTIVE, modified_nodes = []\<rparr>"

definition is_active :: "Transaction \<Rightarrow> bool" where
  "is_active txn = (state txn = ACTIVE)"

definition add_modified_node :: "Transaction \<Rightarrow> addr \<Rightarrow> Transaction" where
  "add_modified_node txn a = txn\<lparr>modified_nodes := modified_nodes txn @ [a]\<rparr>"

text \<open>The guard \<open>!txn || !txn->is_active()\<close> of every operation.\<close>

definition inactive :: "Transaction option \<Rightarrow> bool" where
  "inactive txn = (case txn of None \<Rightarrow> True | Some t \<Rightarrow> \<not> is_active t)"

text \<open>
  \<open>class SkipListMVCC\<close>.  \<open>active_transactions\<close> lists the keys of the map
  \<open>_active_transactions\<close>, the only part of it that is read.
\<close>

record ('k, 'v) SkipListMVCC = "('k, ('v, unit) NodeMVCC_ext) skiplist" +
  next_txn_id :: ts
  active_transactions :: "ts list"
  total_commits :: ts
  total_aborts :: ts
  total_versions :: ts

definition new_SkipListMVCC :: "nat \<Rightarrow> 'k \<Rightarrow> ('k, 'v) SkipListMVCC" where
  "new_SkipListMVCC max_lvl hk =
     \<lparr>max_level = max_lvl, skip_list_level = 0, header = 0,
      heap = [Some (new_NodeMVCC hk max_lvl)],
      next_txn_id = 1, active_transactions = [],
      total_commits = 0, total_aborts = 0, total_versions = 0\<rparr>"

text \<open>Applying a method of \<open>NodeMVCC\<close> that rewrites the version chain of node \<open>a\<close>.\<close>

definition on_versions ::
  "('k, 'v) NodeMVCC option list \<Rightarrow> addr \<Rightarrow> ('v chain \<Rightarrow> 'v chain)
     \<Rightarrow> ('k, 'v) NodeMVCC option list option" where
  "on_versions h a f =
     Option.bind (node_at h a) (\<lambda>n.
       Some (h[a := Some (n\<lparr>version_head := f (version_head n)\<rparr>)]))"

definition begin_transaction ::
  "('k, 'v) SkipListMVCC \<Rightarrow> Transaction \<times> ('k, 'v) SkipListMVCC" where
  "begin_transaction s =
     (let tid = next_txn_id s in
      (new_Transaction tid,
       s\<lparr>next_txn_id := next_txn_id s + 1,
         active_transactions := List.insert tid (active_transactions s)\<rparr>))"

text \<open>
  \<open>commit_transaction\<close>: the returned \<open>bool\<close>, the state and the transaction.
  \<open>commit_nodes\<close> is the loop over \<open>txn->modified_nodes\<close>.
\<close>

fun commit_nodes ::
  "addr list \<Rightarrow> ts \<Rightarrow> ('k, 'v) NodeMVCC option list \<Rightarrow> ('k, 'v) NodeMVCC option list option"
  where
  "commit_nodes [] tid h = Some h"
| "commit_nodes (a # as) tid h =
     Option.bind (on_versions h a (\<lambda>c. commit_version c tid)) (commit_nodes as tid)"

definition commit_transaction ::
  "('k, 'v) SkipListMVCC \<Rightarrow> Transaction option
     \<Rightarrow> (bool \<times> ('k, 'v) SkipListMVCC \<times> Transaction option) option" where
  "commit_transaction s txn =
     (case txn of
        None \<Rightarrow> Some (False, s, txn)
      | Some t \<Rightarrow>
          if \<not> is_active t then Some (False, s, txn)
          else Option.bind (commit_nodes (modified_nodes t) (txn_id t) (heap s)) (\<lambda>h.
                 Some (True,
                       s\<lparr>heap := h,
                         active_transactions := removeAll (txn_id t) (active_transactions s),
                         total_commits := total_commits s + 1\<rparr>,
                       Some (t\<lparr>state := COMMITTED\<rparr>))))"

definition abort_transaction ::
  "('k, 'v) SkipListMVCC \<Rightarrow> Transaction option
     \<Rightarrow> ('k, 'v) SkipListMVCC \<times> Transaction option" where
  "abort_transaction s txn =
     (case txn of
        None \<Rightarrow> (s, txn)
      | Some t \<Rightarrow>
          if \<not> is_active t then (s, txn)
          else (s\<lparr>active_transactions := removeAll (txn_id t) (active_transactions s),
                  total_aborts := total_aborts s + 1\<rparr>,
                Some (t\<lparr>state := ABORTED\<rparr>)))"

text \<open>
  \<open>SkipListMVCC::insert_element\<close>: the returned \<open>int\<close>, the state and the
  transaction.
\<close>

definition mvcc_insert_element ::
  "('k::linorder, 'v) SkipListMVCC \<Rightarrow> Transaction option \<Rightarrow> 'k \<Rightarrow> 'v \<Rightarrow> nat
     \<Rightarrow> (int \<times> ('k, 'v) SkipListMVCC \<times> Transaction option) option" where
  "mvcc_insert_element s txn k v coins =
     (case txn of
        None \<Rightarrow> Some (- 1, s, txn)
      | Some t \<Rightarrow>
          if \<not> is_active t then Some (- 1, s, txn)
          else
     Option.bind (seek_update (heap s) k (skip_list_level s) (header s)
                    (replicate (max_level s + 1) None)) (\<lambda>(pred, update).
     Option.bind (get_forward (heap s) pred 0) (\<lambda>current.
     Option.bind (key_matches (heap s) current k) (\<lambda>exists.
       if exists
       then Option.bind current (\<lambda>c.
            Option.bind (on_versions (heap s) c (\<lambda>ch. add_version ch v (txn_id t))) (\<lambda>h.
              Some (0, s\<lparr>heap := h, total_versions := total_versions s + 1\<rparr>,
                    Some (add_modified_node t c))))
       else
         let random_level = get_random_level (max_level s) coins in
         Option.bind (if random_level > skip_list_level s
                      then map_option (\<lambda>u. (u, random_level))
                             (raise_update update (header s) (skip_list_level s) random_level)
                      else Some (update, skip_list_level s)) (\<lambda>(update1, lvl).
         let new_node = length (heap s) in
         Option.bind (on_versions (heap s @ [Some (new_NodeMVCC k random_level)]) new_node
                        (\<lambda>ch. add_version ch v (txn_id t))) (\<lambda>h0.
         Option.bind (splice_node update1 new_node random_level h0) (\<lambda>h.
           Some (0, s\<lparr>skip_list_level := lvl, heap := h,
                       total_versions := total_versions s + 1\<rparr>,
                 Some (add_modified_node t new_node)))))))))"

text \<open>
  \<open>SkipListMVCC::search_element\<close>: the returned \<open>bool\<close> and the value written
  through \<open>value\<close>, if one is written.
\<close>

definition mvcc_search_element ::
  "('k::linorder, 'v) SkipListMVCC \<Rightarrow> Transaction option \<Rightarrow> 'k
     \<Rightarrow> (bool \<times> 'v option) option" where
  "mvcc_search_element s txn k =
     (case txn of
        None \<Rightarrow> Some (False, None)
      | Some t \<Rightarrow>
          if \<not> is_active t then Some (False, None)
          else
     Option.bind (seek (heap s) k (skip_list_level s) (header s)) (\<lambda>pred.
     Option.bind (get_forward (heap s) pred 0) (\<lambda>current.
     Option.bind (key_matches (heap s) current k) (\<lambda>exists.
       if exists
       then Option.bind (Option.bind current (node_at (heap s))) (\<lambda>n.
              case get_visible_version (version_head n) (txn_id t) of
                Some ver \<Rightarrow> Some (True, Some (val ver))
              | None \<Rightarrow> Some (False, None))
       else Some (False, None)))))"

text \<open>\<open>SkipListMVCC::delete_element\<close>: a tombstone on the head version, no unlinking.\<close>

definition mvcc_delete_element ::
  "('k::linorder, 'v) SkipListMVCC \<Rightarrow> Transaction option \<Rightarrow> 'k
     \<Rightarrow> ('k, 'v) SkipListMVCC option" where
  "mvcc_delete_element s txn k =
     (case txn of
        None \<Rightarrow> Some s
      | Some t \<Rightarrow>
          if \<not> is_active t then Some s
          else
     Option.bind (seek (heap s) k (skip_list_level s) (header s)) (\<lambda>pred.
     Option.bind (get_forward (heap s) pred 0) (\<lambda>current.
     Option.bind (key_matches (heap s) current k) (\<lambda>exists.
       if exists
       then Option.bind current (\<lambda>c.
            Option.bind (on_versions (heap s) c (\<lambda>ch. mark_deleted ch (txn_id t))) (\<lambda>h.
              Some (s\<lparr>heap := h\<rparr>)))
       else Some s))))"

text \<open>
  The collecting loop of \<open>range_query\<close>:
  \<open>while (current != nullptr && current->get_key() <= end_key)\<close>.
\<close>

partial_function (option) collect_range ::
  "('k::linorder, 'v) NodeMVCC option list \<Rightarrow> addr option \<Rightarrow> 'k \<Rightarrow> ts
     \<Rightarrow> ('k \<times> 'v) list \<Rightarrow> ('k \<times> 'v) list option" where
  "collect_range h current end_key tid result =
     (case current of
        None \<Rightarrow> Some result
      | Some c \<Rightarrow>
          Option.bind (node_at h c) (\<lambda>n.
            if key n \<le> end_key
            then Option.bind (slot (forward n) 0) (\<lambda>nx.
                   collect_range h nx end_key tid
                     (case get_visible_version (version_head n) tid of
                        Some ver \<Rightarrow> result @ [(key n, val ver)]
                      | None \<Rightarrow> result))
            else Some result))"

definition range_query ::
  "('k::linorder, 'v) SkipListMVCC \<Rightarrow> Transaction option \<Rightarrow> 'k \<Rightarrow> 'k
     \<Rightarrow> ('k \<times> 'v) list option" where
  "range_query s txn start_key end_key =
     (case txn of
        None \<Rightarrow> Some []
      | Some t \<Rightarrow>
          if \<not> is_active t then Some []
          else if start_key > end_key then Some []
          else
     Option.bind (seek (heap s) start_key (skip_list_level s) (header s)) (\<lambda>pred.
     Option.bind (get_forward (heap s) pred 0) (\<lambda>current.
       collect_range (heap s) current end_key (txn_id t) [])))"

text \<open>\<open>get_min_active_txn_id\<close> and \<open>gc\<close>; \<open>gc_nodes\<close> is the loop over level 0.\<close>

definition get_min_active_txn_id :: "('k, 'v) SkipListMVCC \<Rightarrow> ts" where
  "get_min_active_txn_id s =
     (if active_transactions s = [] then next_txn_id s
      else fold (\<lambda>tid min_id. min min_id tid) (active_transactions s) UINT64_MAX)"

partial_function (option) gc_nodes ::
  "('k, 'v) NodeMVCC option list \<Rightarrow> addr option \<Rightarrow> ts
     \<Rightarrow> ('k, 'v) NodeMVCC option list option" where
  "gc_nodes h current min_active_txn_id =
     (case current of
        None \<Rightarrow> Some h
      | Some c \<Rightarrow>
          Option.bind (on_versions h c (\<lambda>ch. gc_versions ch min_active_txn_id)) (\<lambda>h1.
          Option.bind (get_forward h1 c 0) (\<lambda>nx.
          gc_nodes h1 nx min_active_txn_id)))"

definition gc :: "('k, 'v) SkipListMVCC \<Rightarrow> ('k, 'v) SkipListMVCC option" where
  "gc s =
     Option.bind (get_forward (heap s) (header s) 0) (\<lambda>current.
     Option.bind (gc_nodes (heap s) current (get_min_active_txn_id s)) (\<lambda>h.
       Some (s\<lparr>heap := h\<rparr>)))"

text \<open>
  A client of the MVCC list: the list together with the transactions that
  \<open>begin_transaction\<close> has handed out, named by their position.  A position that
  names no transaction stands for the null handle.
\<close>

datatype ('k, 'v) mvcc_op =
    Begin
  | Commit nat
  | Abort nat
  | MInsert nat 'k 'v nat
  | MDelete nat 'k
  | Gc

definition handle :: "Transaction list \<Rightarrow> nat \<Rightarrow> Transaction option" where
  "handle txns i = (if i < length txns then Some (txns ! i) else None)"

definition store :: "Transaction list \<Rightarrow> nat \<Rightarrow> Transaction option \<Rightarrow> Transaction list" where
  "store txns i txn = (case txn of None \<Rightarrow> txns | Some t \<Rightarrow> txns[i := t])"

fun mvcc_step ::
  "('k::linorder, 'v) mvcc_op \<Rightarrow> ('k, 'v) SkipListMVCC \<times> Transaction list
     \<Rightarrow> (('k, 'v) SkipListMVCC \<times> Transaction list) option" where
  "mvcc_step Begin (s, txns) =
     (case begin_transaction s of (t, s1) \<Rightarrow> Some (s1, txns @ [t]))"
| "mvcc_step (Commit i) (s, txns) =
     Option.bind (commit_transaction s (handle txns i)) (\<lambda>(r, s1, t). Some (s1, store txns i t))"
| "mvcc_step (Abort i) (s, txns) =
     (case abort_transaction s (handle txns i) of (s1, t) \<Rightarrow> Some (s1, store txns i t))"
| "mvcc_step (MInsert i k v coins) (s, txns) =
     Option.bind (mvcc_insert_element s (handle txns i) k v coins)
       (\<lambda>(r, s1, t). Some (s1, store txns i t))"
| "mvcc_step (MDelete i k) (s, txns) =
     Option.bind (mvcc_delete_element s (handle txns i) k) (\<lambda>s1. Some (s1, txns))"
| "mvcc_step Gc (s, txns) = Option.bind (gc s) (\<lambda>s1. Some (s1, txns))"

fun run_mvcc ::
  "('k::linorder, 'v) mvcc_op list \<Rightarrow> ('k, 'v) SkipListMVCC \<times> Transaction list
     \<Rightarrow> (('k, 'v) SkipListMVCC \<times> Transaction list) option" where
  "run_mvcc [] c = Some c"
| "run_mvcc (x # ops) c = Option.bind (mvcc_step x c) (run_mvcc ops)"


text \<open>The pointer loops are run by their defining equations.\<close>

declare advance.simps [code]
declare walk_keys.simps [code]
declare collect_range.simps [code]
declare gc_nodes.simps [code]

section \<open>Scenarios\<close>

text \<open>
  The garbage collection scenario of \<open>test_garbage_collection\<close>: ten transactions
  in turn write key 1 and commit, then \<open>gc()\<close> runs with no transaction active.
\<close>

definition gc_scenario_ops :: "(int, string) mvcc_op list" where
  "gc_scenario_ops =
     [Begin, MInsert 0 1 ''v0'' 0, Commit 0,
      Begin, MInsert 1 1 ''v1'' 0, Commit 1,
      Begin, MInsert 2 1 ''v2'' 0, Commit 2,
      Begin, MInsert 3 1 ''v3'' 0, Commit 3,
      Begin, MInsert 4 1 ''v4'' 0, Commit 4,
      Begin, MInsert 5 1 ''v5'' 0, Commit 5,
      Begin, MInsert 6 1 ''v6'' 0, Commit 6,
      Begin, MInsert 7 1 ''v7'' 0, Commit 7,
      Begin, MInsert 8 1 ''v8'' 0, Commit 8,
      Begin, MInsert 9 1 ''v9'' 0, Commit 9,
      Gc, Begin]"

definition committed_version :: "'v \<Rightarrow> ts \<Rightarrow> 'v version" where
  "committed_version v tid = (Version v tid)\<lparr>is_committed := True\<rparr>"

text \<open>The version chain of the node at address \<open>a\<close>.\<close>

definition versions_at :: "('k, 'v) SkipListMVCC \<Rightarrow> addr \<Rightarrow> 'v chain option" where
  "versions_at s a = map_option version_head (node_at (heap s) a)"

section \<open>The list a heap represents\<close>

text \<open>
  A tower is the address, the key and the \<open>node_level\<close> of a live node.  A skip
  list is described by the towers of its live nodes in the order of level 0.
\<close>

type_synonym 'k tower = "addr \<times> 'k \<times> nat"

definition t_addr :: "'k tower \<Rightarrow> addr" where
  "t_addr t = fst t"

definition t_key :: "'k tower \<Rightarrow> 'k" where
  "t_key t = fst (snd t)"

definition t_lvl :: "'k tower \<Rightarrow> nat" where
  "t_lvl t = snd (snd t)"

text \<open>The addresses of the towers that reach level \<open>j\<close>.\<close>

definition lev :: "nat \<Rightarrow> 'k tower list \<Rightarrow> addr list" where
  "lev j ns = map t_addr (filter (\<lambda>t. j \<le> t_lvl t) ns)"

text \<open>
  \<open>seg h j p as q\<close>: following \<open>forward[j]\<close> from the pointer \<open>p\<close> visits exactly
  the nodes \<open>as\<close> and arrives at the pointer \<open>q\<close>.
\<close>

fun seg :: "('k, 'z) heap \<Rightarrow> nat \<Rightarrow> addr option \<Rightarrow> addr list \<Rightarrow> addr option \<Rightarrow> bool" where
  "seg h j p [] q = (p = q)"
| "seg h j p (a # as) q =
     (p = Some a \<and> (case get_forward h a j of None \<Rightarrow> False | Some r \<Rightarrow> seg h j r as q))"

text \<open>The node at the address of a tower has the key, level and array size of the tower.\<close>

definition tower_ok :: "('k, 'z) heap \<Rightarrow> 'k tower \<Rightarrow> bool" where
  "tower_ok h t =
     (case node_at h (t_addr t) of
        None \<Rightarrow> False
      | Some n \<Rightarrow> key n = t_key t \<and> node_level n = t_lvl t \<and> length (forward n) = t_lvl t + 1)"

definition max_lvl_of :: "'k tower list \<Rightarrow> nat" where
  "max_lvl_of ns = Max (set (0 # map t_lvl ns))"

text \<open>
  The structural invariant: the towers \<open>ns\<close> are distinct nodes other than the
  header, in strictly increasing key order; at every level \<open>j\<close> of the header the
  \<open>forward[j]\<close> pointers chain the header to exactly the towers that reach level
  \<open>j\<close>, in order, and end in null; the current level is the highest level of a tower
  (0 for the empty list).
\<close>

definition sl_inv ::
  "nat \<Rightarrow> nat \<Rightarrow> addr \<Rightarrow> ('k::linorder, 'z) heap \<Rightarrow> 'k tower list \<Rightarrow> bool" where
  "sl_inv max_lvl lvl hdr h ns =
     (distinct (hdr # map t_addr ns)
      \<and> sorted_wrt (<) (map t_key ns)
      \<and> (\<forall>t \<in> set ns. tower_ok h t)
      \<and> (case node_at h hdr of
            None \<Rightarrow> False
          | Some n \<Rightarrow> length (forward n) = max_lvl + 1)
      \<and> lvl \<le> max_lvl
      \<and> lvl = max_lvl_of ns
      \<and> (\<forall>j \<le> max_lvl. seg h j (Some hdr) (hdr # lev j ns) None))"

definition skiplist_inv :: "('k::linorder, 'z, 'w) skiplist_scheme \<Rightarrow> 'k tower list \<Rightarrow> bool" where
  "skiplist_inv s ns = sl_inv (max_level s) (skip_list_level s) (header s) (heap s) ns"

text \<open>
  The towers before key \<open>k\<close> and from key \<open>k\<close> on, and the predecessor of \<open>k\<close> at
  level \<open>j\<close>: the last tower before \<open>k\<close> that reaches level \<open>j\<close>, or the header.
\<close>

definition towers_before :: "'k::linorder \<Rightarrow> 'k tower list \<Rightarrow> 'k tower list" where
  "towers_before k ns = takeWhile (\<lambda>t. t_key t < k) ns"

definition towers_from :: "'k::linorder \<Rightarrow> 'k tower list \<Rightarrow> 'k tower list" where
  "towers_from k ns = dropWhile (\<lambda>t. t_key t < k) ns"

definition pred_at :: "addr \<Rightarrow> 'k::linorder \<Rightarrow> 'k tower list \<Rightarrow> nat \<Rightarrow> addr" where
  "pred_at hdr k ns j = last (hdr # lev j (towers_before k ns))"

definition first_of :: "'a list \<Rightarrow> 'a option" where
  "first_of xs = (case xs of [] \<Rightarrow> None | x # _ \<Rightarrow> Some x)"

text \<open>Two heaps that differ in \<open>forward\<close> pointers only.\<close>

definition same_data :: "('k, 'z) heap \<Rightarrow> ('k, 'z) heap \<Rightarrow> bool" where
  "same_data h h' =
     (length h' = length h
      \<and> (\<forall>a < length h.
            case h ! a of
              None \<Rightarrow> h' ! a = None
            | Some n \<Rightarrow> (case h' ! a of
                           None \<Rightarrow> False
                         | Some n' \<Rightarrow> n'\<lparr>forward := []\<rparr> = n\<lparr>forward := []\<rparr>
                                     \<and> length (forward n') = length (forward n))))"

section \<open>Observations and invariants of the two lists\<close>

text \<open>
  The traversal of level 0 that \<open>size\<close>, \<open>dump_file\<close> and \<open>gc\<close> make:
  \<open>while (node != NULL) { ...; node = node->forward[0]; }\<close>, collecting the
  addresses of the nodes it visits.
\<close>

partial_function (option) walk_addrs ::
  "('k, 'z) heap \<Rightarrow> addr option \<Rightarrow> addr list \<Rightarrow> addr list option" where
  "walk_addrs h node acc =
     (case node of
        None \<Rightarrow> Some acc
      | Some a \<Rightarrow> Option.bind (get_forward h a 0) (\<lambda>nx. walk_addrs h nx (acc @ [a])))"

declare walk_addrs.simps [code]

text \<open>The live nodes, and their \<open>node_level\<close>s.\<close>

definition live_nodes :: "('k, 'z, 'w) skiplist_scheme \<Rightarrow> addr list option" where
  "live_nodes s =
     Option.bind (get_forward (heap s) (header s) 0) (\<lambda>node. walk_addrs (heap s) node [])"

fun node_levels :: "('k, 'z) heap \<Rightarrow> addr list \<Rightarrow> nat list option" where
  "node_levels h [] = Some []"
| "node_levels h (a # as) =
     Option.bind (node_at h a) (\<lambda>n.
     Option.bind (node_levels h as) (\<lambda>ls. Some (node_level n # ls)))"

definition tower_heights :: "('k, 'z, 'w) skiplist_scheme \<Rightarrow> nat list option" where
  "tower_heights s = Option.bind (live_nodes s) (node_levels (heap s))"

text \<open>
  The keys and heights of the live nodes, in the order of level 0.
\<close>

fun node_entries :: "('k, 'z) heap \<Rightarrow> addr list \<Rightarrow> ('k \<times> nat) list option" where
  "node_entries h [] = Some []"
| "node_entries h (a # as) =
     Option.bind (node_at h a) (\<lambda>n.
     Option.bind (node_entries h as) (\<lambda>es. Some ((key n, node_level n) # es)))"

definition live_entries :: "('k, 'z, 'w) skiplist_scheme \<Rightarrow> ('k \<times> nat) list option" where
  "live_entries s = Option.bind (live_nodes s) (node_entries (heap s))"

text \<open>
  The structural lookup every operation starts with: the node whose key is \<open>k\<close>,
  if there is one (\<open>Some None\<close> when there is none).
\<close>

definition find_node :: "('k::linorder, 'z, 'w) skiplist_scheme \<Rightarrow> 'k \<Rightarrow> addr option option" where
  "find_node s k =
     Option.bind (seek (heap s) k (skip_list_level s) (header s)) (\<lambda>pred.
     Option.bind (get_forward (heap s) pred 0) (\<lambda>current.
     Option.bind (key_matches (heap s) current k) (\<lambda>exists.
       Some (if exists then current else None))))"

text \<open>The version chain of key \<open>k\<close>: empty when the key has no node.\<close>

definition key_versions :: "('k::linorder, 'v) SkipListMVCC \<Rightarrow> 'k \<Rightarrow> 'v chain option" where
  "key_versions s k =
     Option.bind (find_node s k) (\<lambda>c.
       case c of None \<Rightarrow> Some [] | Some a \<Rightarrow> versions_at s a)"

text \<open>
  The invariant of the optimized list: the structure, and an empty free list
  (\<open>delete_element\<close> deletes the node, nothing calls \<open>deallocate\<close>).
\<close>

definition opt_inv :: "('k::linorder, 'v) SkipListOptimized \<Rightarrow> 'k tower list \<Rightarrow> bool" where
  "opt_inv s ns = (skiplist_inv s ns \<and> free_list (memory_pool s) = [])"

text \<open>
  The invariant of an MVCC client: the structure; no cell was ever freed; the
  transactions handed out only name nodes of the heap.
\<close>

definition mvcc_inv ::
  "('k::linorder, 'v) SkipListMVCC \<times> Transaction list \<Rightarrow> 'k tower list \<Rightarrow> bool" where
  "mvcc_inv c ns =
     (skiplist_inv (fst c) ns
      \<and> (\<forall>a < length (heap (fst c)). heap (fst c) ! a \<noteq> None)
      \<and> (\<forall>t \<in> set (snd c). \<forall>a \<in> set (modified_nodes t). a < length (heap (fst c))))"

text \<open>Two heaps whose nodes have the same keys, levels and pointers.\<close>

definition same_links :: "('k, 'z) heap \<Rightarrow> ('k, 'z) heap \<Rightarrow> bool" where
  "same_links h h' =
     (\<forall>a. map_option (\<lambda>n. (key n, forward n, node_level n)) (node_at h' a)
            = map_option (\<lambda>n. (key n, forward n, node_level n)) (node_at h a))"

text \<open>
  What a reader with identifier \<open>tid\<close> sees of a node: its key and the value of
  its first visible version, if it has one.
\<close>

definition visible_entry ::
  "('k, 'v) NodeMVCC option list \<Rightarrow> ts \<Rightarrow> addr \<Rightarrow> ('k \<times> 'v) option" where
  "visible_entry h tid a =
     Option.bind (node_at h a) (\<lambda>n.
       map_option (\<lambda>ver. (key n, val ver)) (get_visible_version (version_head n) tid))"

section \<open>Visibility and lookup in a version chain\<close>

lemma get_visible_version_None:
  "get_visible_version vs t = None \<longleftrightarrow> (\<forall>v \<in> set vs. \<not> is_visible v t)"
  by (induction vs) auto

lemma get_visible_version_Some:
  "get_visible_version vs t = Some v \<longleftrightarrow>
     (\<exists>pre post. vs = pre @ v # post \<and> is_visible v t \<and> (\<forall>u \<in> set pre. \<not> is_visible u t))"
proof (induction vs)
  case Nil
  then show ?case by simp
next
  case (Cons a vs)
  show ?case
  proof (cases "is_visible a t")
    case True
    have "(\<exists>pre post. a # vs = pre @ v # post \<and> is_visible v t \<and>
             (\<forall>u \<in> set pre. \<not> is_visible u t)) \<longleftrightarrow> a = v"
    proof
      assume "\<exists>pre post. a # vs = pre @ v # post \<and> is_visible v t \<and>
                (\<forall>u \<in> set pre. \<not> is_visible u t)"
      then obtain pre post where e: "a # vs = pre @ v # post"
        and n: "\<forall>u \<in> set pre. \<not> is_visible u t" by blast
      show "a = v"
      proof (cases pre)
        case Nil
        with e show ?thesis by simp
      next
        case (Cons b bs)
        with e have "b = a" by simp
        with Cons n True show ?thesis by simp
      qed
    next
      assume "a = v"
      with True have "a # vs = [] @ v # vs \<and> is_visible v t \<and>
                        (\<forall>u \<in> set []. \<not> is_visible u t)" by simp
      then show "\<exists>pre post. a # vs = pre @ v # post \<and> is_visible v t \<and>
                   (\<forall>u \<in> set pre. \<not> is_visible u t)" by blast
    qed
    with True show ?thesis by auto
  next
    case False
    have "(\<exists>pre post. a # vs = pre @ v # post \<and> is_visible v t \<and>
             (\<forall>u \<in> set pre. \<not> is_visible u t)) \<longleftrightarrow>
          (\<exists>pre post. vs = pre @ v # post \<and> is_visible v t \<and>
             (\<forall>u \<in> set pre. \<not> is_visible u t))" (is "?L \<longleftrightarrow> ?R")
    proof
      assume ?L
      then obtain pre post where e: "a # vs = pre @ v # post" and vis: "is_visible v t"
        and n: "\<forall>u \<in> set pre. \<not> is_visible u t" by blast
      show ?R
      proof (cases pre)
        case Nil
        with e vis False show ?thesis by simp
      next
        case (Cons b bs)
        with e n have "vs = bs @ v # post" "\<forall>u \<in> set bs. \<not> is_visible u t" by simp_all
        with vis show ?thesis by blast
      qed
    next
      assume ?R
      then obtain pre post where e: "vs = pre @ v # post" and vis: "is_visible v t"
        and n: "\<forall>u \<in> set pre. \<not> is_visible u t" by blast
      from e n False have "a # vs = (a # pre) @ v # post"
        "\<forall>u \<in> set (a # pre). \<not> is_visible u t" by simp_all
      with vis show ?L by blast
    qed
    with False Cons.IH show ?thesis by simp
  qed
qed

text \<open>
  C1.  A version is visible to transaction \<open>t\<close> exactly when it was created by \<open>t\<close>
  and its \<open>delete_ts\<close> is greater than \<open>t\<close>, or it is committed, was created before
  \<open>t\<close> and its \<open>delete_ts\<close> is greater than \<open>t\<close>.  \<open>get_visible_version\<close> returns
  the first version of the chain, from the head, that is visible, and null exactly
  when no version of the chain is visible.
\<close>

theorem C1_visible_first:
  "(is_visible v t \<longleftrightarrow>
      (create_ts v = t \<and> delete_ts v > t) \<or>
      (is_committed v \<and> create_ts v < t \<and> delete_ts v > t))
   \<and> (get_visible_version vs t = Some v \<longleftrightarrow>
        (\<exists>pre post. vs = pre @ v # post \<and> is_visible v t \<and>
           (\<forall>u \<in> set pre. \<not> is_visible u t)))
   \<and> (get_visible_version vs t = None \<longleftrightarrow> (\<forall>u \<in> set vs. \<not> is_visible u t))"
proof (intro conjI)
  show "is_visible v t \<longleftrightarrow>
      (create_ts v = t \<and> delete_ts v > t) \<or>
      (is_committed v \<and> create_ts v < t \<and> delete_ts v > t)"
    by (auto simp: is_visible_def)
  show "get_visible_version vs t = Some v \<longleftrightarrow>
        (\<exists>pre post. vs = pre @ v # post \<and> is_visible v t \<and>
           (\<forall>u \<in> set pre. \<not> is_visible u t))"
    by (rule get_visible_version_Some)
  show "get_visible_version vs t = None \<longleftrightarrow> (\<forall>u \<in> set vs. \<not> is_visible u t)"
    by (rule get_visible_version_None)
qed


theorem C1_visible_first_witness:
  "get_visible_version
     [Version ''b'' 7, \<lparr>val = ''a'', create_ts = 2, delete_ts = UINT64_MAX, is_committed = True\<rparr>] 5
     = Some \<lparr>val = ''a'', create_ts = 2, delete_ts = UINT64_MAX, is_committed = True\<rparr>
   \<and> \<not> is_visible (Version ''b'' 7) 5
   \<and> get_visible_version [Version ''b'' 7] 5 = None"
proof -
  let ?a = "\<lparr>val = ''a'', create_ts = 2, delete_ts = UINT64_MAX, is_committed = True\<rparr>"
  have nb: "\<not> is_visible (Version ''b'' 7) 5"
    using C1_visible_first [of "Version ''b'' 7" 5 "[]"]
    by (simp add: Version_def)
  have va: "is_visible ?a 5"
    using C1_visible_first [of ?a 5 "[]"]
    by (simp add: UINT64_MAX_def)
  have "[Version ''b'' 7, ?a] = [Version ''b'' 7] @ ?a # []" by simp
  with nb va have "get_visible_version [Version ''b'' 7, ?a] 5 = Some ?a"
    using C1_visible_first [of ?a 5 "[Version ''b'' 7, ?a]"] by force
  moreover have "get_visible_version [Version ''b'' 7] 5 = None"
    using nb C1_visible_first [of ?a 5 "[Version ''b'' 7]"] by simp
  ultimately show ?thesis using nb by simp
qed

section \<open>The node pool\<close>










section \<open>Operations on a transaction that is not active\<close>

text \<open>
  C7.  With a null handle or a transaction that is not \<open>ACTIVE\<close>,
  \<open>insert_element\<close> returns -1, \<open>search_element\<close> returns false and writes no
  value, \<open>delete_element\<close> changes nothing, \<open>range_query\<close> returns the empty
  sequence and \<open>commit_transaction\<close> returns false; the list (structure, version
  chains, counters) and the transaction are left as they were.
\<close>

theorem C7_inactive_transaction:
  assumes "txn = None \<or> (\<exists>t. txn = Some t \<and> (state t = COMMITTED \<or> state t = ABORTED))"
  shows "mvcc_insert_element s txn k v coins = Some (- 1, s, txn)
       \<and> mvcc_search_element s txn k = Some (False, None)
       \<and> mvcc_delete_element s txn k = Some s
       \<and> range_query s txn lo hi = Some []
       \<and> commit_transaction s txn = Some (False, s, txn)"
proof (cases txn)
  case None
  then show ?thesis
    by (simp add: mvcc_insert_element_def mvcc_search_element_def mvcc_delete_element_def
        range_query_def commit_transaction_def)
next
  case (Some t)
  with assms have "\<not> is_active t" by (auto simp: is_active_def)
  with Some show ?thesis
    by (simp add: mvcc_insert_element_def mvcc_search_element_def mvcc_delete_element_def
        range_query_def commit_transaction_def)
qed

theorem C7_inactive_transaction_witness:
  "mvcc_insert_element (new_SkipListMVCC 6 (0::int) :: (int, string) SkipListMVCC)
      (Some \<lparr>txn_id = 1, state = COMMITTED, modified_nodes = []\<rparr>) 5 ''x'' 0
     = Some (- 1, new_SkipListMVCC 6 0, Some \<lparr>txn_id = 1, state = COMMITTED, modified_nodes = []\<rparr>)
   \<and> commit_transaction (new_SkipListMVCC 6 (0::int) :: (int, string) SkipListMVCC)
      (Some \<lparr>txn_id = 1, state = COMMITTED, modified_nodes = []\<rparr>)
     = Some (False, new_SkipListMVCC 6 0, Some \<lparr>txn_id = 1, state = COMMITTED, modified_nodes = []\<rparr>)
   \<and> range_query (new_SkipListMVCC 6 (0::int) :: (int, string) SkipListMVCC) None 1 9 = Some []"
proof -
  let ?t = "\<lparr>txn_id = 1, state = COMMITTED, modified_nodes = []\<rparr>"
  let ?s = "new_SkipListMVCC 6 (0::int) :: (int, string) SkipListMVCC"
  have a: "Some ?t = None \<or> (\<exists>t. Some ?t = Some t \<and> (state t = COMMITTED \<or> state t = ABORTED))"
    by simp
  have b: "(None :: Transaction option) = None
             \<or> (\<exists>t. None = Some t \<and> (state t = COMMITTED \<or> state t = ABORTED))"
    by simp
  from C7_inactive_transaction [OF a, of ?s 5 "''x''" 0 1 9]
    C7_inactive_transaction [OF b, of ?s 5 "''x''" 0 1 9]
  show ?thesis by simp
qed

section \<open>The garbage collection scenario\<close>

text \<open>
  C3 (what the code does).  After the ten committed writes of key 1, \<open>gc()\<close> with no
  transaction active leaves all ten versions in the chain of the key: no superseded
  version ever gets a \<open>delete_ts\<close> below \<open>UINT64_MAX\<close>, so none is reclaimed.
  The read that follows returns \<open>v9\<close>.
\<close>

theorem C3_gc_reclaims_nothing:
  "map_option (\<lambda>(s, txns). (versions_at s 1, mvcc_search_element s (handle txns 10) 1))
     (run_mvcc gc_scenario_ops (new_SkipListMVCC 6 0, []))
   = Some (Some [committed_version ''v9'' 10, committed_version ''v8'' 9,
                 committed_version ''v7'' 8, committed_version ''v6'' 7,
                 committed_version ''v5'' 6, committed_version ''v4'' 5,
                 committed_version ''v3'' 4, committed_version ''v2'' 3,
                 committed_version ''v1'' 2, committed_version ''v0'' 1],
           Some (True, Some ''v9''))"
  by code_simp

section \<open>Heap primitives\<close>

lemma node_at_Some_iff: "node_at h a = Some n \<longleftrightarrow> a < length h \<and> h ! a = Some n"
  by (simp add: node_at_def)

lemma slot_Some_iff: "slot xs i = Some x \<longleftrightarrow> i < length xs \<and> xs ! i = x"
  by (auto simp: slot_def)

lemma get_forward_Some_iff:
  "get_forward h a i = Some q \<longleftrightarrow>
     (\<exists>n. node_at h a = Some n \<and> i < length (forward n) \<and> forward n ! i = q)"
  by (cases "node_at h a") (auto simp: get_forward_def slot_def)

lemma set_forward_Some_iff:
  "set_forward h a i q = Some h' \<longleftrightarrow>
     (\<exists>n. node_at h a = Some n \<and> i < length (forward n)
          \<and> h' = h[a := Some (n\<lparr>forward := (forward n)[i := q]\<rparr>)])"
  by (cases "node_at h a") (auto simp: set_forward_def set_slot_def)

lemma node_at_update:
  "a < length h \<Longrightarrow> node_at (h[a := x]) b = (if b = a then x else node_at h b)"
  by (simp add: node_at_def)

lemma node_at_set_forward:
  assumes "set_forward h a i q = Some h'"
  shows "node_at h' b =
           (if b = a then map_option (\<lambda>n. n\<lparr>forward := (forward n)[i := q]\<rparr>) (node_at h a)
            else node_at h b)"
proof -
  from assms obtain n where n: "node_at h a = Some n" "i < length (forward n)"
    "h' = h[a := Some (n\<lparr>forward := (forward n)[i := q]\<rparr>)]"
    by (auto simp: set_forward_Some_iff)
  then have "a < length h" by (simp add: node_at_Some_iff)
  with n show ?thesis by (simp add: node_at_update)
qed

lemma get_forward_set_forward:
  assumes "set_forward h a i q = Some h'"
  shows "get_forward h' b j = (if b = a \<and> j = i then Some q else get_forward h b j)"
proof -
  from assms obtain n where n: "node_at h a = Some n" "i < length (forward n)"
    by (auto simp: set_forward_Some_iff)
  show ?thesis
    using n by (auto simp: get_forward_def node_at_set_forward [OF assms] slot_def nth_list_update)
qed

lemma get_key_set_forward:
  "set_forward h a i q = Some h' \<Longrightarrow> get_key h' b = get_key h b"
  by (cases "node_at h a") (auto simp: get_key_def node_at_set_forward)

lemma length_set_forward: "set_forward h a i q = Some h' \<Longrightarrow> length h' = length h"
  by (auto simp: set_forward_Some_iff)

lemma set_forward_defined:
  "get_forward h a i = Some r \<Longrightarrow> \<exists>h'. set_forward h a i q = Some h'"
  by (auto simp: get_forward_Some_iff set_forward_Some_iff)

section \<open>Segments\<close>

lemma seg_frame:
  "(\<And>a. a \<in> set as \<Longrightarrow> get_forward h' a j = get_forward h a j)
     \<Longrightarrow> seg h' j p as q = seg h j p as q"
  by (induction as arbitrary: p) (auto split: option.splits)

lemma seg_append:
  "seg h j p (xs @ ys) q \<longleftrightarrow> (\<exists>r. seg h j p xs r \<and> seg h j r ys q)"
  by (induction xs arbitrary: p) (auto split: option.splits)

lemma seg_snoc:
  "seg h j p (xs @ [a]) q \<longleftrightarrow> seg h j p xs (Some a) \<and> get_forward h a j = Some q"
  by (auto simp: seg_append split: option.splits)

lemma seg_Cons_iff [simp]:
  "seg h j p (a # as) q \<longleftrightarrow> p = Some a \<and> (\<exists>r. get_forward h a j = Some r \<and> seg h j r as q)"
  by (auto split: option.splits)

declare seg.simps(2) [simp del]

section \<open>The inner search loop\<close>

lemma advance_seg:
  assumes "seg h i (Some x) (x # as @ bs) None"
    and "\<And>a. a \<in> set as \<Longrightarrow> \<exists>ka. get_key h a = Some ka \<and> ka < k"
    and "bs = [] \<or> (\<exists>kb. get_key h (hd bs) = Some kb \<and> \<not> kb < k)"
  shows "advance h i k x = Some (last (x # as))"
  using assms
proof (induction as arbitrary: x)
  case Nil
  from Nil.prems(1) obtain r where r: "get_forward h x i = Some r" "seg h i r bs None"
    by auto
  show ?case
  proof (cases bs)
    case Nil
    with r have "r = None" by simp
    with r show ?thesis by (subst advance.simps) simp
  next
    case (Cons b bs')
    with r have rb: "r = Some b" by simp
    from Cons Nil.prems(3) obtain kb where "get_key h b = Some kb" "\<not> kb < k" by auto
    with r rb show ?thesis by (subst advance.simps) simp
  qed
next
  case (Cons a as)
  from Cons.prems(1) obtain r where r: "get_forward h x i = Some r" "seg h i r (a # as @ bs) None"
    by auto
  then have ra: "r = Some a" by simp
  from Cons.prems(2) [of a] obtain ka where ka: "get_key h a = Some ka" "ka < k" by auto
  from r ra have "seg h i (Some a) (a # as @ bs) None" by simp
  from Cons.IH [OF this] Cons.prems(2,3)
  have "advance h i k a = Some (last (a # as))" by simp
  with r ra ka show ?case by (subst advance.simps) simp
qed

section \<open>Towers\<close>

lemma first_of_simps [simp]: "first_of [] = None" "first_of (x # xs) = Some x"
  by (simp_all add: first_of_def)

lemma towers_split: "towers_before k ns @ towers_from k ns = ns"
  by (simp add: towers_before_def towers_from_def)

lemma towers_before_lt: "t \<in> set (towers_before k ns) \<Longrightarrow> t_key t < k"
  by (auto simp: towers_before_def dest: set_takeWhileD)

lemma towers_from_ge:
  "sorted_wrt (<) (map t_key ns) \<Longrightarrow> t \<in> set (towers_from k ns) \<Longrightarrow> \<not> t_key t < k"
proof (induction ns)
  case Nil
  then show ?case by (simp add: towers_from_def)
next
  case (Cons x ns)
  show ?case
  proof (cases "t_key x < k")
    case True
    with Cons show ?thesis by (simp add: towers_from_def)
  next
    case False
    with Cons.prems show ?thesis by (auto simp: towers_from_def)
  qed
qed

lemma towers_before_subset: "t \<in> set (towers_before k ns) \<Longrightarrow> t \<in> set ns"
  by (auto simp: towers_before_def dest: set_takeWhileD)

lemma towers_from_subset: "t \<in> set (towers_from k ns) \<Longrightarrow> t \<in> set ns"
  by (auto simp: towers_from_def dest: set_dropWhileD)

lemma lev_append [simp]: "lev j (xs @ ys) = lev j xs @ lev j ys"
  by (simp add: lev_def)

lemma lev_Nil [simp]: "lev j [] = []"
  by (simp add: lev_def)

lemma lev_Cons: "lev j (t # ns) = (if j \<le> t_lvl t then t_addr t # lev j ns else lev j ns)"
  by (simp add: lev_def)

lemma lev_0 [simp]: "lev 0 ns = map t_addr ns"
  by (simp add: lev_def)

lemma set_lev: "set (lev j ns) = {t_addr t | t. t \<in> set ns \<and> j \<le> t_lvl t}"
  by (auto simp: lev_def)

lemma set_lev_subset: "set (lev j ns) \<subseteq> set (map t_addr ns)"
  by (auto simp: lev_def)

lemma set_lev_mono: "i \<le> j \<Longrightarrow> set (lev j ns) \<subseteq> set (lev i ns)"
  by (auto simp: lev_def)

lemma distinct_lev: "distinct (map t_addr ns) \<Longrightarrow> distinct (lev j ns)"
  by (simp add: lev_def distinct_map_filter)

lemma lev_split: "lev j ns = lev j (towers_before k ns) @ lev j (towers_from k ns)"
proof -
  have "lev j ns = lev j (towers_before k ns @ towers_from k ns)"
    by (simp only: towers_split)
  then show ?thesis by simp
qed

lemma max_lvl_of_ge: "t \<in> set ns \<Longrightarrow> t_lvl t \<le> max_lvl_of ns"
  by (simp add: max_lvl_of_def)

lemma max_lvl_of_Nil [simp]: "max_lvl_of [] = 0"
  by (simp add: max_lvl_of_def)

lemma max_lvl_of_in: "ns \<noteq> [] \<Longrightarrow> \<exists>t \<in> set ns. t_lvl t = max_lvl_of ns"
proof -
  assume "ns \<noteq> []"
  then obtain t where t: "t \<in> set ns" by (cases ns) auto
  have "Max (set (0 # map t_lvl ns)) \<in> set (0 # map t_lvl ns)"
    by (rule Max_in) simp_all
  then have "max_lvl_of ns = 0 \<or> (\<exists>u \<in> set ns. t_lvl u = max_lvl_of ns)"
    by (auto simp: max_lvl_of_def)
  moreover have "t_lvl t \<le> max_lvl_of ns" using t by (rule max_lvl_of_ge)
  ultimately show ?thesis using t by force
qed

lemma max_lvl_of_set: "set xs = set ys \<Longrightarrow> max_lvl_of xs = max_lvl_of ys"
  by (simp add: max_lvl_of_def)

section \<open>Reading the invariant\<close>

lemma inv_seg:
  "sl_inv ml lvl hdr h ns \<Longrightarrow> j \<le> ml \<Longrightarrow> seg h j (Some hdr) (hdr # lev j ns) None"
  by (simp add: sl_inv_def)

lemma inv_tower:
  assumes "sl_inv ml lvl hdr h ns" "t \<in> set ns"
  shows "\<exists>n. node_at h (t_addr t) = Some n \<and> key n = t_key t
           \<and> node_level n = t_lvl t \<and> length (forward n) = t_lvl t + 1"
  using assms by (auto simp: sl_inv_def tower_ok_def split: option.splits)

lemma inv_get_key:
  "sl_inv ml lvl hdr h ns \<Longrightarrow> t \<in> set ns \<Longrightarrow> get_key h (t_addr t) = Some (t_key t)"
  by (drule (1) inv_tower) (auto simp: get_key_def)

lemma inv_lvl_le: "sl_inv ml lvl hdr h ns \<Longrightarrow> t \<in> set ns \<Longrightarrow> t_lvl t \<le> lvl"
  by (simp add: sl_inv_def max_lvl_of_ge)

lemma inv_sorted: "sl_inv ml lvl hdr h ns \<Longrightarrow> sorted_wrt (<) (map t_key ns)"
  by (simp add: sl_inv_def)

lemma inv_distinct: "sl_inv ml lvl hdr h ns \<Longrightarrow> distinct (hdr # map t_addr ns)"
  by (simp add: sl_inv_def)

lemma inv_level_le: "sl_inv ml lvl hdr h ns \<Longrightarrow> lvl \<le> ml"
  by (simp add: sl_inv_def)

lemma inv_header:
  "sl_inv ml lvl hdr h ns \<Longrightarrow> \<exists>n. node_at h hdr = Some n \<and> length (forward n) = ml + 1"
  by (auto simp: sl_inv_def split: option.splits)

section \<open>The search\<close>

lemma seg_last_forward:
  "seg h j (Some x) ((x # as) @ bs) None \<Longrightarrow>
     get_forward h (last (x # as)) j = Some (first_of bs)"
proof (induction as arbitrary: x)
  case Nil
  then obtain r where "get_forward h x j = Some r" "seg h j r bs None" by auto
  then show ?case by (cases bs) auto
next
  case (Cons a as)
  then have "seg h j (Some a) ((a # as) @ bs) None" by auto
  from Cons.IH [OF this] show ?case by simp
qed

lemma advance_level:
  assumes inv: "sl_inv ml lvl hdr h ns" and j: "j \<le> ml"
    and x: "x \<in> set (hdr # lev j (towers_before k ns))"
  shows "advance h j k x = Some (pred_at hdr k ns j)"
proof -
  let ?pre = "towers_before k ns" and ?post = "towers_from k ns"
  from x obtain F A where split: "hdr # lev j ?pre = F @ x # A"
    using split_list [of x "hdr # lev j ?pre"] by blast
  have "hdr # lev j ns = F @ x # A @ lev j ?post"
    using split lev_split [of j ns k] by simp
  with inv_seg [OF inv j] have "seg h j (Some hdr) (F @ x # A @ lev j ?post) None"
    by simp
  then have sx: "seg h j (Some x) (x # A @ lev j ?post) None"
    unfolding seg_append by auto
  have keysA: "\<exists>ka. get_key h a = Some ka \<and> ka < k" if "a \<in> set A" for a
  proof -
    have "a \<in> set (lev j ?pre)"
    proof (cases F)
      case Nil
      with split that show ?thesis by simp
    next
      case (Cons f F')
      with split have "lev j ?pre = F' @ x # A" by simp
      with that show ?thesis by simp
    qed
    then obtain t where t: "t \<in> set ?pre" "t_addr t = a" by (auto simp: set_lev)
    then have "t \<in> set ns" by (simp add: towers_before_subset)
    with inv t have "get_key h a = Some (t_key t)" by (auto dest: inv_get_key)
    with t towers_before_lt show ?thesis by blast
  qed
  have keysB: "lev j ?post = [] \<or> (\<exists>kb. get_key h (hd (lev j ?post)) = Some kb \<and> \<not> kb < k)"
  proof (cases "lev j ?post")
    case Nil
    then show ?thesis by simp
  next
    case (Cons b bs)
    then have "b \<in> set (lev j ?post)" by simp
    then obtain t where t: "t \<in> set ?post" "t_addr t = b" by (auto simp: set_lev)
    then have "t \<in> set ns" by (simp add: towers_from_subset)
    with inv t have "get_key h b = Some (t_key t)" by (auto dest: inv_get_key)
    moreover from towers_from_ge [OF inv_sorted [OF inv] t(1)] have "\<not> t_key t < k" .
    ultimately show ?thesis using Cons by simp
  qed
  have "pred_at hdr k ns j = last (F @ x # A)"
    unfolding pred_at_def by (simp only: split)
  also have "\<dots> = last (x # A)" by simp
  finally have "pred_at hdr k ns j = last (x # A)" .
  with advance_seg [OF sx keysA keysB] show ?thesis by simp
qed

lemma pred_at_mem: "pred_at hdr k ns j \<in> set (hdr # lev j (towers_before k ns))"
  unfolding pred_at_def by (rule last_in_set) simp

lemma pred_at_mem_below:
  "i \<le> j \<Longrightarrow> pred_at hdr k ns j \<in> set (hdr # lev i (towers_before k ns))"
  using pred_at_mem [of hdr k ns j] set_lev_mono [of i j "towers_before k ns"] by auto

lemma seek_level:
  assumes inv: "sl_inv ml lvl hdr h ns"
  shows "j \<le> ml \<Longrightarrow> x \<in> set (hdr # lev j (towers_before k ns))
           \<Longrightarrow> seek h k j x = Some (pred_at hdr k ns 0)"
proof (induction j arbitrary: x)
  case 0
  then show ?case by (simp add: advance_level [OF inv])
next
  case (Suc j)
  from Suc.prems have a: "advance h (Suc j) k x = Some (pred_at hdr k ns (Suc j))"
    by (simp add: advance_level [OF inv])
  have "pred_at hdr k ns (Suc j) \<in> set (hdr # lev j (towers_before k ns))"
    by (rule pred_at_mem_below) simp
  with Suc.IH Suc.prems(1) have "seek h k j (pred_at hdr k ns (Suc j)) = Some (pred_at hdr k ns 0)"
    by simp
  with a show ?case by simp
qed

lemma seek_update_level:
  assumes inv: "sl_inv ml lvl hdr h ns"
  shows "j \<le> ml \<Longrightarrow> x \<in> set (hdr # lev j (towers_before k ns)) \<Longrightarrow> length u = ml + 1
           \<Longrightarrow> seek_update h k j x u =
                 Some (pred_at hdr k ns 0,
                       map (\<lambda>i. if i \<le> j then Some (pred_at hdr k ns i) else u ! i) [0..<ml + 1])"
proof (induction j arbitrary: x u)
  case 0
  from 0 have a: "advance h 0 k x = Some (pred_at hdr k ns 0)"
    by (simp add: advance_level [OF inv])
  have "u[0 := Some (pred_at hdr k ns 0)]
          = map (\<lambda>i. if i \<le> 0 then Some (pred_at hdr k ns i) else u ! i) [0..<ml + 1]"
    using 0(3) by (intro nth_equalityI) (auto simp: nth_list_update simp del: upt_Suc)
  with a 0(3) show ?case by (simp add: set_slot_def del: upt_Suc)
next
  case (Suc j)
  let ?u1 = "u[Suc j := Some (pred_at hdr k ns (Suc j))]"
  from Suc.prems have a: "advance h (Suc j) k x = Some (pred_at hdr k ns (Suc j))"
    by (simp add: advance_level [OF inv])
  have m: "pred_at hdr k ns (Suc j) \<in> set (hdr # lev j (towers_before k ns))"
    by (rule pred_at_mem_below) simp
  from Suc.prems have "j \<le> ml" "length ?u1 = ml + 1" by simp_all
  from Suc.IH [OF this(1) m this(2)]
  have "seek_update h k j (pred_at hdr k ns (Suc j)) ?u1 =
          Some (pred_at hdr k ns 0,
                map (\<lambda>i. if i \<le> j then Some (pred_at hdr k ns i) else ?u1 ! i) [0..<ml + 1])" .
  moreover have "map (\<lambda>i. if i \<le> j then Some (pred_at hdr k ns i) else ?u1 ! i) [0..<ml + 1]
      = map (\<lambda>i. if i \<le> Suc j then Some (pred_at hdr k ns i) else u ! i) [0..<ml + 1]"
    using Suc.prems by (intro nth_equalityI) (auto simp: nth_list_update le_Suc_eq simp del: upt_Suc)
  ultimately show ?case using a Suc.prems by (simp add: set_slot_def del: upt_Suc)
qed

section \<open>Counted loops\<close>

lemma for_each_append:
  "for_each (xs @ ys) body s = Option.bind (for_each xs body s) (for_each ys body)"
proof (induction xs arbitrary: s)
  case Nil
  then show ?case by simp
next
  case (Cons x xs)
  then show ?case by (cases "body x s") simp_all
qed

lemma for_each_set_slot:
  "b \<le> length u \<Longrightarrow>
     for_each [a..<b] (\<lambda>i u. set_slot u i (Some v)) u =
       Some (map (\<lambda>i. if a \<le> i \<and> i < b then Some v else u ! i) [0..<length u])"
proof (induction b)
  case 0
  then show ?case by (simp add: map_nth)
next
  case (Suc b)
  show ?case
  proof (cases "a \<le> b")
    case True
    let ?m = "map (\<lambda>i. if a \<le> i \<and> i < b then Some v else u ! i) [0..<length u]"
    from Suc have ih: "for_each [a..<b] (\<lambda>i u. set_slot u i (Some v)) u = Some ?m" by simp
    have "?m[b := Some v] = map (\<lambda>i. if a \<le> i \<and> i < Suc b then Some v else u ! i) [0..<length u]"
      using Suc.prems True by (intro nth_equalityI) (auto simp: nth_list_update less_Suc_eq)
    moreover have "[a..<Suc b] = [a..<b] @ [b]" using True by simp
    ultimately show ?thesis using ih Suc.prems
      by (simp only: for_each_append) (simp add: set_slot_def)
  next
    case False
    then have "[a..<Suc b] = []" by simp
    moreover have "map (\<lambda>i. if a \<le> i \<and> i < Suc b then Some v else u ! i) [0..<length u] = u"
      using False by (intro nth_equalityI) auto
    ultimately show ?thesis by simp
  qed
qed

section \<open>The candidate\<close>

lemma candidate:
  assumes inv: "sl_inv ml lvl hdr h ns"
  shows "get_forward h (pred_at hdr k ns 0) 0 = Some (first_of (map t_addr (towers_from k ns)))"
proof -
  have "seg h 0 (Some hdr) (hdr # lev 0 ns) None" by (rule inv_seg [OF inv]) simp
  then have "seg h 0 (Some hdr) ((hdr # lev 0 (towers_before k ns)) @ lev 0 (towers_from k ns)) None"
    using lev_split [of 0 ns k] by simp
  from seg_last_forward [OF this] show ?thesis by (simp add: pred_at_def)
qed

lemma towers_from_sorted:
  "sorted_wrt (<) (map t_key ns) \<Longrightarrow> sorted_wrt (<) (map t_key (towers_from k ns))"
proof -
  assume "sorted_wrt (<) (map t_key ns)"
  then have "sorted_wrt (<) (map t_key (towers_before k ns @ towers_from k ns))"
    by (simp only: towers_split)
  then show ?thesis by (simp add: sorted_wrt_append)
qed

lemma towers_from_present:
  assumes "sorted_wrt (<) (map t_key ns)" "t \<in> set ns" "t_key t = k"
  shows "\<exists>rest. towers_from k ns = t # rest"
proof -
  have "set ns = set (towers_before k ns) \<union> set (towers_from k ns)"
    using towers_split [of k ns] set_append [of "towers_before k ns" "towers_from k ns"] by simp
  with assms(2) have "t \<in> set (towers_before k ns) \<or> t \<in> set (towers_from k ns)"
    by blast
  with assms(3) towers_before_lt [of t k ns] have m: "t \<in> set (towers_from k ns)" by auto
  then obtain x rest where xr: "towers_from k ns = x # rest" by (cases "towers_from k ns") auto
  have "x = t"
  proof (rule ccontr)
    assume "x \<noteq> t"
    with m xr have "t \<in> set rest" by simp
    with towers_from_sorted [OF assms(1), of k] xr have "t_key x < t_key t" by auto
    moreover have "\<not> t_key x < k" using towers_from_ge [OF assms(1), of x k] xr by simp
    ultimately show False using assms(3) by simp
  qed
  with xr show ?thesis by simp
qed

lemma towers_from_absent:
  assumes "sorted_wrt (<) (map t_key ns)" "k \<notin> t_key ` set ns" "t \<in> set (towers_from k ns)"
  shows "k < t_key t"
proof -
  from assms(3) have "t \<in> set ns" by (rule towers_from_subset)
  with assms(2) have "t_key t \<noteq> k" by auto
  with towers_from_ge [OF assms(1,3)] show ?thesis by auto
qed

lemma key_matches_candidate:
  assumes inv: "sl_inv ml lvl hdr h ns"
  shows "key_matches h (first_of (map t_addr (towers_from k ns))) k = Some (k \<in> t_key ` set ns)"
proof (cases "towers_from k ns")
  case Nil
  have "k \<notin> t_key ` set ns"
  proof
    assume "k \<in> t_key ` set ns"
    then obtain t where "t \<in> set ns" "t_key t = k" by auto
    from towers_from_present [OF inv_sorted [OF inv] this] Nil show False by simp
  qed
  with Nil show ?thesis by (simp add: key_matches_def)
next
  case (Cons x rest)
  then have xin: "x \<in> set (towers_from k ns)" by simp
  then have "x \<in> set ns" by (rule towers_from_subset)
  with inv have gk: "get_key h (t_addr x) = Some (t_key x)" by (rule inv_get_key)
  have "t_key x = k \<longleftrightarrow> k \<in> t_key ` set ns"
  proof
    assume "t_key x = k"
    with \<open>x \<in> set ns\<close> show "k \<in> t_key ` set ns" by auto
  next
    assume "k \<in> t_key ` set ns"
    then obtain t where "t \<in> set ns" "t_key t = k" by auto
    from towers_from_present [OF inv_sorted [OF inv] this] Cons show "t_key x = k"
      using \<open>t_key t = k\<close> by simp
  qed
  with Cons gk show ?thesis by (simp add: key_matches_def)
qed

section \<open>Heaps that differ in pointers only\<close>

lemma same_data_refl: "same_data h h"
  by (auto simp: same_data_def split: option.splits)

lemma same_data_nth:
  assumes "same_data h h'" "a < length h" "h ! a = Some n"
  shows "\<exists>n'. h' ! a = Some n' \<and> n'\<lparr>forward := []\<rparr> = n\<lparr>forward := []\<rparr>
           \<and> length (forward n') = length (forward n)"
proof -
  from assms(1,2) have "case h ! a of None \<Rightarrow> h' ! a = None
              | Some n \<Rightarrow> (case h' ! a of None \<Rightarrow> False
                          | Some n' \<Rightarrow> n'\<lparr>forward := []\<rparr> = n\<lparr>forward := []\<rparr>
                                      \<and> length (forward n') = length (forward n))"
    by (simp add: same_data_def)
  with assms(3) show ?thesis by (cases "h' ! a") simp_all
qed

lemma same_data_nth_None:
  assumes "same_data h h'" "a < length h" "h ! a = None"
  shows "h' ! a = None"
proof -
  from assms(1,2) have "case h ! a of None \<Rightarrow> h' ! a = None
              | Some n \<Rightarrow> (case h' ! a of None \<Rightarrow> False
                          | Some n' \<Rightarrow> n'\<lparr>forward := []\<rparr> = n\<lparr>forward := []\<rparr>
                                      \<and> length (forward n') = length (forward n))"
    by (simp add: same_data_def)
  with assms(3) show ?thesis by simp
qed

lemma same_data_length: "same_data h h' \<Longrightarrow> length h' = length h"
  by (simp add: same_data_def)

lemma same_dataI:
  assumes "length h' = length h"
    and "\<And>a. a < length h \<Longrightarrow> h ! a = None \<Longrightarrow> h' ! a = None"
    and "\<And>a n. a < length h \<Longrightarrow> h ! a = Some n \<Longrightarrow>
           \<exists>n'. h' ! a = Some n' \<and> n'\<lparr>forward := []\<rparr> = n\<lparr>forward := []\<rparr>
                \<and> length (forward n') = length (forward n)"
  shows "same_data h h'"
  unfolding same_data_def
proof (intro conjI allI impI)
  show "length h' = length h" by (rule assms(1))
next
  fix a assume a: "a < length h"
  show "case h ! a of None \<Rightarrow> h' ! a = None
              | Some n \<Rightarrow> (case h' ! a of None \<Rightarrow> False
                          | Some n' \<Rightarrow> n'\<lparr>forward := []\<rparr> = n\<lparr>forward := []\<rparr>
                                      \<and> length (forward n') = length (forward n))"
  proof (cases "h ! a")
    case None
    with assms(2) [OF a] show ?thesis by simp
  next
    case (Some n)
    from assms(3) [OF a Some] Some show ?thesis by auto
  qed
qed

lemma same_data_trans:
  assumes 12: "same_data h1 h2" and 23: "same_data h2 h3"
  shows "same_data h1 h3"
proof (rule same_dataI)
  show "length h3 = length h1" using assms by (simp add: same_data_length)
next
  fix a assume a: "a < length h1" and n: "h1 ! a = None"
  from same_data_nth_None [OF 12 a n] have "h2 ! a = None" .
  moreover from a 12 have "a < length h2" by (simp add: same_data_length)
  ultimately show "h3 ! a = None" using 23 by (simp add: same_data_nth_None)
next
  fix a n assume a: "a < length h1" and n: "h1 ! a = Some n"
  from same_data_nth [OF 12 a n] obtain n2 where n2: "h2 ! a = Some n2"
    "n2\<lparr>forward := []\<rparr> = n\<lparr>forward := []\<rparr>" "length (forward n2) = length (forward n)"
    by blast
  from a 12 have "a < length h2" by (simp add: same_data_length)
  from same_data_nth [OF 23 this n2(1)] obtain n3 where n3: "h3 ! a = Some n3"
    "n3\<lparr>forward := []\<rparr> = n2\<lparr>forward := []\<rparr>" "length (forward n3) = length (forward n2)"
    by blast
  with n2 show "\<exists>n'. h3 ! a = Some n' \<and> n'\<lparr>forward := []\<rparr> = n\<lparr>forward := []\<rparr>
                \<and> length (forward n') = length (forward n)" by simp
qed

lemma same_data_set_forward:
  assumes "set_forward h a i q = Some h'"
  shows "same_data h h'"
proof -
  from assms obtain n where n: "node_at h a = Some n" "i < length (forward n)"
    "h' = h[a := Some (n\<lparr>forward := (forward n)[i := q]\<rparr>)]"
    by (auto simp: set_forward_Some_iff)
  then have a: "a < length h" "h ! a = Some n" by (simp_all add: node_at_Some_iff)
  show ?thesis
  proof (rule same_dataI)
    show "length h' = length h" using n by simp
  next
    fix b assume "b < length h" "h ! b = None"
    with a n(3) show "h' ! b = None" by (cases "b = a") simp_all
  next
    fix b m assume "b < length h" "h ! b = Some m"
    with a n(3) show "\<exists>n'. h' ! b = Some n' \<and> n'\<lparr>forward := []\<rparr> = m\<lparr>forward := []\<rparr>
                \<and> length (forward n') = length (forward m)"
      by (cases "b = a") simp_all
  qed
qed

lemma same_data_node_at:
  assumes "same_data h h'" "node_at h a = Some n"
  shows "\<exists>n'. node_at h' a = Some n' \<and> n'\<lparr>forward := []\<rparr> = n\<lparr>forward := []\<rparr>
           \<and> length (forward n') = length (forward n)"
proof -
  from assms(2) have a: "a < length h" "h ! a = Some n" by (simp_all add: node_at_Some_iff)
  from same_data_nth [OF assms(1) a] a(1) assms(1) show ?thesis
    by (simp add: node_at_def same_data_length)
qed

lemma data_key: "n'\<lparr>forward := []\<rparr> = n\<lparr>forward := []\<rparr> \<Longrightarrow> key n' = key n"
  by (drule arg_cong [where f = key]) simp

lemma data_node_level: "n'\<lparr>forward := []\<rparr> = n\<lparr>forward := []\<rparr> \<Longrightarrow> node_level n' = node_level n"
  by (drule arg_cong [where f = node_level]) simp

lemma same_data_tower_ok: "same_data h h' \<Longrightarrow> tower_ok h t \<Longrightarrow> tower_ok h' t"
proof -
  assume sd: "same_data h h'" and ok: "tower_ok h t"
  from ok obtain n where n: "node_at h (t_addr t) = Some n" "key n = t_key t"
    "node_level n = t_lvl t" "length (forward n) = t_lvl t + 1"
    by (auto simp: tower_ok_def split: option.splits)
  from same_data_node_at [OF sd n(1)] obtain n' where n': "node_at h' (t_addr t) = Some n'"
    "n'\<lparr>forward := []\<rparr> = n\<lparr>forward := []\<rparr>" "length (forward n') = length (forward n)"
    by blast
  from n'(2) have "key n' = key n" "node_level n' = node_level n"
    by (rule data_key, rule data_node_level)
  with n n'(1,3) show ?thesis by (simp add: tower_ok_def)
qed

lemma same_data_get_forward_defined:
  assumes "same_data h h'" "get_forward h a i = Some r"
  shows "\<exists>r'. get_forward h' a i = Some r'"
proof -
  from assms(2) obtain n where n: "node_at h a = Some n" "i < length (forward n)"
    by (auto simp: get_forward_Some_iff)
  from same_data_node_at [OF assms(1) n(1)] obtain n' where n': "node_at h' a = Some n'"
    "length (forward n') = length (forward n)" by blast
  with n(2) show ?thesis by (simp add: get_forward_Some_iff)
qed

lemma same_data_get_key: "same_data h h' \<Longrightarrow> get_key h a = Some k \<Longrightarrow> get_key h' a = Some k"
proof -
  assume sd: "same_data h h'" and "get_key h a = Some k"
  then obtain n where n: "node_at h a = Some n" "key n = k" by (auto simp: get_key_def)
  from same_data_node_at [OF sd n(1)] obtain n' where n': "node_at h' a = Some n'"
    "n'\<lparr>forward := []\<rparr> = n\<lparr>forward := []\<rparr>" by blast
  from n'(2) have "key n' = key n" by (rule data_key)
  with n'(1) n(2) show ?thesis by (simp add: get_key_def)
qed

section \<open>Splicing one level\<close>

lemma splice_level_step:
  assumes sg: "seg h i (Some hdr) ((F @ [u]) @ P) None"
    and dist: "u \<notin> set F" "u \<notin> set P" "new \<notin> set F" "new \<notin> set P" "new \<noteq> u"
    and newslot: "get_forward h new i = Some r0"
    and upd: "deref update i = Some u"
  shows "\<exists>h'. splice_level update new i h = Some h'
           \<and> seg h' i (Some hdr) (F @ [u, new] @ P) None
           \<and> (\<forall>b j. j \<noteq> i \<longrightarrow> get_forward h' b j = get_forward h b j)
           \<and> same_data h h'"
proof -
  from sg obtain nx where fu: "seg h i (Some hdr) F (Some u)" "get_forward h u i = Some nx"
    and sp: "seg h i nx P None"
    unfolding seg_append by auto
  from set_forward_defined [OF newslot] obtain h1 where h1: "set_forward h new i nx = Some h1"
    by blast
  have gf1: "get_forward h1 b j = (if b = new \<and> j = i then Some nx else get_forward h b j)" for b j
    by (rule get_forward_set_forward [OF h1])
  with fu dist have "get_forward h1 u i = Some nx" by simp
  from set_forward_defined [OF this] obtain h' where h': "set_forward h1 u i (Some new) = Some h'"
    by blast
  have gf: "get_forward h' b j =
              (if b = u \<and> j = i then Some (Some new)
               else if b = new \<and> j = i then Some nx else get_forward h b j)" for b j
    by (simp add: get_forward_set_forward [OF h'] gf1)
  have "seg h' i (Some hdr) F (Some u) = seg h i (Some hdr) F (Some u)"
    by (rule seg_frame) (use dist in \<open>auto simp: gf\<close>)
  with fu have 1: "seg h' i (Some hdr) F (Some u)" by simp
  have "seg h' i nx P None = seg h i nx P None"
    by (rule seg_frame) (use dist in \<open>auto simp: gf\<close>)
  with sp have 2: "seg h' i nx P None" by simp
  from 2 dist have "seg h' i (Some u) ([u, new] @ P) None" by (simp add: gf)
  with 1 have "seg h' i (Some hdr) (F @ [u, new] @ P) None"
    unfolding seg_append [of h' i "Some hdr" F] by blast
  moreover have "splice_level update new i h = Some h'"
    using upd fu h1 h' by (simp add: splice_level_def)
  moreover have "same_data h h'"
    using same_data_set_forward [OF h1] same_data_set_forward [OF h'] by (rule same_data_trans)
  ultimately show ?thesis by (auto simp: gf)
qed

section \<open>A fresh cell\<close>

lemma node_at_append: "node_at (h @ [x]) a = (if a = length h then x else node_at h a)"
  by (auto simp: node_at_def nth_append)

lemma get_forward_append:
  "a < length h \<Longrightarrow> get_forward (h @ [x]) a j = get_forward h a j"
  by (simp add: get_forward_def node_at_append)

lemma get_key_append: "a < length h \<Longrightarrow> get_key (h @ [x]) a = get_key h a"
  by (simp add: get_key_def node_at_append)

lemma tower_ok_append: "tower_ok h t \<Longrightarrow> tower_ok (h @ [x]) t"
  by (auto simp: tower_ok_def node_at_append node_at_Some_iff split: option.splits)

lemma inv_addr_less:
  assumes "sl_inv ml lvl hdr h ns" "a \<in> set (hdr # map t_addr ns)"
  shows "a < length h"
proof (cases "a = hdr")
  case True
  with inv_header [OF assms(1)] show ?thesis by (auto simp: node_at_Some_iff)
next
  case False
  with assms(2) obtain t where "t \<in> set ns" "a = t_addr t" by auto
  with inv_tower [OF assms(1)] show ?thesis by (auto simp: node_at_Some_iff)
qed

lemma inv_lev_less:
  assumes "sl_inv ml lvl hdr h ns" "a \<in> set (hdr # lev j ns)"
  shows "a < length h"
proof -
  from assms(2) set_lev_subset [of j ns] have "a \<in> set (hdr # map t_addr ns)" by auto
  with assms(1) show ?thesis by (rule inv_addr_less)
qed

section \<open>Splicing a new node\<close>

lemma last_notin_butlast: "distinct xs \<Longrightarrow> xs \<noteq> [] \<Longrightarrow> last xs \<notin> set (butlast xs)"
proof -
  assume d: "distinct xs" and ne: "xs \<noteq> []"
  then have "distinct (butlast xs @ [last xs])" by simp
  then show ?thesis by simp
qed

lemma lev_insert: "lev j ((a, k, l) # ys) = (if j \<le> l then a # lev j ys else lev j ys)"
  by (simp add: lev_Cons t_lvl_def t_addr_def)

lemma splice_loop:
  assumes inv: "sl_inv ml lvl hdr h ns"
    and rl: "rl \<le> ml"
    and n0: "length (forward n0) = rl + 1"
    and upd: "\<And>i. i \<le> rl \<Longrightarrow> deref update i = Some (pred_at hdr k ns i)"
  shows "m \<le> rl + 1 \<Longrightarrow>
     \<exists>hm. for_each [0..<m] (splice_level update (length h)) (h @ [Some n0]) = Some hm
          \<and> same_data (h @ [Some n0]) hm
          \<and> (\<forall>j < m. seg hm j (Some hdr)
                 (hdr # lev j (towers_before k ns @ (length h, k, rl) # towers_from k ns)) None)
          \<and> (\<forall>j. m \<le> j \<and> j \<le> ml \<longrightarrow> seg hm j (Some hdr) (hdr # lev j ns) None)"
proof (induction m)
  case 0
  have "seg (h @ [Some n0]) j (Some hdr) (hdr # lev j ns) None" if "j \<le> ml" for j
  proof -
    have "seg (h @ [Some n0]) j (Some hdr) (hdr # lev j ns) None
            = seg h j (Some hdr) (hdr # lev j ns) None"
      by (rule seg_frame) (simp add: get_forward_append inv_lev_less [OF inv])
    with inv_seg [OF inv that] show ?thesis by simp
  qed
  then show ?case by (simp add: same_data_refl)
next
  case (Suc m)
  let ?new = "length h" and ?h0 = "h @ [Some n0]"
  let ?pre = "towers_before k ns" and ?post = "towers_from k ns"
  let ?ns' = "?pre @ (?new, k, rl) # ?post"
  from Suc.prems have m: "m \<le> rl" "m \<le> ml" using rl by simp_all
  from Suc.IH m obtain hm where hm: "for_each [0..<m] (splice_level update ?new) ?h0 = Some hm"
    and sd: "same_data ?h0 hm"
    and dn: "\<And>j. j < m \<Longrightarrow> seg hm j (Some hdr) (hdr # lev j ?ns') None"
    and todo: "\<And>j. m \<le> j \<Longrightarrow> j \<le> ml \<Longrightarrow> seg hm j (Some hdr) (hdr # lev j ns) None"
    by auto
  let ?L = "hdr # lev m ?pre"
  let ?u = "pred_at hdr k ns m" and ?P = "lev m ?post"
  have "butlast ?L @ [?u] = ?L" unfolding pred_at_def by (rule append_butlast_last_id) simp
  then obtain F where L: "F @ [?u] = ?L" by blast
  have full: "hdr # lev m ns = (F @ [?u]) @ ?P"
    unfolding L using lev_split [of m ns k] by simp
  have dfull: "distinct ((F @ [?u]) @ ?P)"
    unfolding full [symmetric] using inv_distinct [OF inv] by (simp add: distinct_lev set_lev)
      (use set_lev_subset [of m ns] in auto)
  have lt: "a < ?new" if "a \<in> set ((F @ [?u]) @ ?P)" for a
    using that unfolding full [symmetric] by (rule inv_lev_less [OF inv])
  have sg: "seg hm m (Some hdr) ((F @ [?u]) @ ?P) None"
    unfolding full [symmetric] using todo [of m] m by simp
  have "get_forward ?h0 ?new m = Some (forward n0 ! m)"
    using m n0 by (simp add: get_forward_def node_at_append slot_def)
  from same_data_get_forward_defined [OF sd this] obtain r0
    where r0: "get_forward hm ?new m = Some r0" by blast
  have d1: "?u \<notin> set F" "?u \<notin> set ?P" using dfull by auto
  have "?new \<notin> set ((F @ [?u]) @ ?P)" using lt [of ?new] by blast
  then have d2: "?new \<notin> set F" "?new \<notin> set ?P" "?new \<noteq> ?u" by auto
  from splice_level_step [OF sg d1 d2 r0 upd [OF m(1)]]
  obtain h' where h': "splice_level update ?new m hm = Some h'"
    and sg': "seg h' m (Some hdr) (F @ [?u, ?new] @ ?P) None"
    and fr: "\<And>b j. j \<noteq> m \<Longrightarrow> get_forward h' b j = get_forward hm b j"
    and sd': "same_data hm h'" by blast
  have "[0..<Suc m] = [0..<m] @ [m]" by simp
  then have "for_each [0..<Suc m] (splice_level update ?new) ?h0 = Some h'"
    using hm h' by (simp only: for_each_append) simp
  moreover have "same_data ?h0 h'" using sd sd' by (rule same_data_trans)
  moreover have "seg h' j (Some hdr) (hdr # lev j ?ns') None" if "j < Suc m" for j
  proof (cases "j = m")
    case True
    have "hdr # lev m ?ns' = (F @ [?u]) @ [?new] @ ?P"
      unfolding L using m by (simp add: lev_insert)
    with sg' True show ?thesis by simp
  next
    case False
    with that have "j < m" by simp
    have "seg h' j (Some hdr) (hdr # lev j ?ns') None = seg hm j (Some hdr) (hdr # lev j ?ns') None"
      by (rule seg_frame) (simp add: fr False)
    with dn [OF \<open>j < m\<close>] show ?thesis by simp
  qed
  moreover have "seg h' j (Some hdr) (hdr # lev j ns) None" if "Suc m \<le> j \<and> j \<le> ml" for j
  proof -
    from that have "j \<noteq> m" "m \<le> j" "j \<le> ml" by simp_all
    have "seg h' j (Some hdr) (hdr # lev j ns) None = seg hm j (Some hdr) (hdr # lev j ns) None"
      by (rule seg_frame) (simp add: fr \<open>j \<noteq> m\<close>)
    with todo [OF \<open>m \<le> j\<close> \<open>j \<le> ml\<close>] show ?thesis by simp
  qed
  ultimately show ?case by blast
qed

lemma max_lvl_of_insert:
  "max_lvl_of (xs @ (a, k, l) # ys) = max (max_lvl_of (xs @ ys)) l"
proof -
  have "set (0 # map t_lvl (xs @ (a, k, l) # ys)) = insert l (set (0 # map t_lvl (xs @ ys)))"
    by (auto simp: t_lvl_def)
  then have "max_lvl_of (xs @ (a, k, l) # ys) = Max (insert l (set (0 # map t_lvl (xs @ ys))))"
    by (simp only: max_lvl_of_def)
  also have "\<dots> = max l (Max (set (0 # map t_lvl (xs @ ys))))"
    by (rule Max_insert) simp_all
  finally show ?thesis by (simp add: max_lvl_of_def max.commute)
qed

lemma sorted_insert_tower:
  assumes srt: "sorted_wrt (<) (map t_key ns)" and fresh: "k \<notin> t_key ` set ns"
  shows "sorted_wrt (<) (map t_key (towers_before k ns @ (a, k, l) # towers_from k ns))"
proof -
  from srt have "sorted_wrt (<) (map t_key (towers_before k ns @ towers_from k ns))"
    by (simp only: towers_split)
  then have 1: "sorted_wrt (<) (map t_key (towers_before k ns))"
    "sorted_wrt (<) (map t_key (towers_from k ns))"
    by (simp_all add: sorted_wrt_append)
  have 2: "t_key x < k" if "x \<in> set (towers_before k ns)" for x
    using that by (rule towers_before_lt)
  have 3: "k < t_key y" if "y \<in> set (towers_from k ns)" for y
    using srt fresh that by (rule towers_from_absent)
  have 4: "t_key x < t_key y" if "x \<in> set (towers_before k ns)" "y \<in> set (towers_from k ns)" for x y
    using 2 [OF that(1)] 3 [OF that(2)] by simp
  show ?thesis using 1 2 3 4 by (auto simp: sorted_wrt_append t_key_def)
qed

lemma splice_new_node:
  assumes inv: "sl_inv ml lvl hdr h ns"
    and rl: "rl \<le> ml"
    and n0: "length (forward n0) = rl + 1" "key n0 = k" "node_level n0 = rl"
    and fresh: "k \<notin> t_key ` set ns"
    and upd: "\<And>i. i \<le> rl \<Longrightarrow> deref update i = Some (pred_at hdr k ns i)"
  shows "\<exists>h'. splice_node update (length h) rl (h @ [Some n0]) = Some h'
           \<and> same_data (h @ [Some n0]) h'
           \<and> sl_inv ml (max lvl rl) hdr h'
                (towers_before k ns @ (length h, k, rl) # towers_from k ns)"
proof -
  let ?new = "length h" and ?h0 = "h @ [Some n0]"
  let ?pre = "towers_before k ns" and ?post = "towers_from k ns"
  let ?ns' = "?pre @ (?new, k, rl) # ?post"
  from splice_loop [OF inv rl n0(1) upd, of "rl + 1"]
  obtain h' where h': "for_each [0..<rl + 1] (splice_level update ?new) ?h0 = Some h'"
    and sd: "same_data ?h0 h'"
    and low: "\<And>j. j < rl + 1 \<Longrightarrow> seg h' j (Some hdr) (hdr # lev j ?ns') None"
    and high: "\<And>j. rl + 1 \<le> j \<Longrightarrow> j \<le> ml \<Longrightarrow> seg h' j (Some hdr) (hdr # lev j ns) None"
    by auto
  have sets: "set ns = set ?pre \<union> set ?post"
    using towers_split [of k ns] set_append [of ?pre ?post] by simp
  have lt: "a < ?new" if "a \<in> set (hdr # map t_addr ns)" for a
    using inv that by (rule inv_addr_less)
  have d: "distinct (hdr # map t_addr ?ns')"
  proof -
    have "distinct (hdr # map t_addr (?pre @ ?post))"
      using inv_distinct [OF inv] by (simp only: towers_split)
    moreover have "?new \<notin> set (hdr # map t_addr (?pre @ ?post))"
      using lt [of ?new] by (simp only: towers_split) blast
    ultimately show ?thesis by (auto simp: t_addr_def)
  qed
  have srt: "sorted_wrt (<) (map t_key ?ns')"
    using inv_sorted [OF inv] fresh by (rule sorted_insert_tower)
  have tok: "tower_ok h' t" if "t \<in> set ?ns'" for t
  proof (cases "t = (?new, k, rl)")
    case True
    have "tower_ok ?h0 (?new, k, rl)"
      using n0 by (simp add: tower_ok_def node_at_append t_addr_def t_key_def t_lvl_def)
    with sd True show ?thesis by (simp add: same_data_tower_ok)
  next
    case False
    with that sets have "t \<in> set ns" by auto
    with inv have "tower_ok h t" by (simp add: sl_inv_def)
    then have "tower_ok ?h0 t" by (rule tower_ok_append)
    with sd show ?thesis by (rule same_data_tower_ok)
  qed
  have hd: "case node_at h' hdr of None \<Rightarrow> False | Some n \<Rightarrow> length (forward n) = ml + 1"
  proof -
    from inv_header [OF inv] obtain n where n: "node_at h hdr = Some n"
      "length (forward n) = ml + 1" by blast
    then have "node_at ?h0 hdr = Some n" by (auto simp: node_at_append node_at_Some_iff)
    from same_data_node_at [OF sd this] n(2) show ?thesis by auto
  qed
  have lvl: "max lvl rl = max_lvl_of ?ns'"
  proof -
    have "max_lvl_of (?pre @ ?post) = lvl" using inv by (simp only: towers_split sl_inv_def)
    then show ?thesis by (simp add: max_lvl_of_insert)
  qed
  have segs: "seg h' j (Some hdr) (hdr # lev j ?ns') None" if "j \<le> ml" for j
  proof (cases "j \<le> rl")
    case True
    then have "j < rl + 1" by simp
    then show ?thesis by (rule low)
  next
    case False
    then have "lev j ?ns' = lev j ns" using lev_split [of j ns k] by (simp add: lev_insert)
    with high [of j] False that show ?thesis by simp
  qed
  have "sl_inv ml (max lvl rl) hdr h' ?ns'"
    unfolding sl_inv_def using d srt tok hd rl inv_level_le [OF inv] lvl segs by simp
  with h' sd show ?thesis by (simp add: splice_node_def)
qed

section \<open>The update vector\<close>

lemma pred_at_above:
  assumes "sl_inv ml lvl hdr h ns" "lvl < i"
  shows "pred_at hdr k ns i = hdr"
proof -
  have "lev i (towers_before k ns) = []"
  proof (rule ccontr)
    assume "lev i (towers_before k ns) \<noteq> []"
    then obtain a where "a \<in> set (lev i (towers_before k ns))"
      by (cases "lev i (towers_before k ns)") auto
    then obtain t where "t \<in> set (towers_before k ns)" "i \<le> t_lvl t" by (auto simp: set_lev)
    with inv_lvl_le [OF assms(1), of t] assms(2) show False
      by (auto dest: towers_before_subset)
  qed
  then show ?thesis by (simp add: pred_at_def)
qed

lemma deref_map:
  "i < n \<Longrightarrow> deref (map f [0..<n]) i = f i"
  by (simp add: deref_def slot_def del: upt_Suc)

lemma find_preds:
  assumes inv: "sl_inv ml lvl hdr h ns"
  shows "\<exists>update. seek_update h k lvl hdr (replicate (ml + 1) None) = Some (pred_at hdr k ns 0, update)
           \<and> length update = ml + 1
           \<and> (\<forall>i \<le> lvl. deref update i = Some (pred_at hdr k ns i))"
proof -
  let ?u = "map (\<lambda>i. if i \<le> lvl then Some (pred_at hdr k ns i) else replicate (ml + 1) None ! i)
              [0..<ml + 1]"
  have "seek_update h k lvl hdr (replicate (ml + 1) None) = Some (pred_at hdr k ns 0, ?u)"
    by (rule seek_update_level [OF inv inv_level_le [OF inv]]) simp_all
  moreover have "length ?u = ml + 1" by simp
  moreover have "deref ?u i = Some (pred_at hdr k ns i)" if "i \<le> lvl" for i
  proof -
    from that inv_level_le [OF inv] have "i < ml + 1" by simp
    then have "deref ?u i = (if i \<le> lvl then Some (pred_at hdr k ns i)
                             else replicate (ml + 1) None ! i)"
      by (rule deref_map)
    with that show ?thesis by simp
  qed
  ultimately show ?thesis by blast
qed

lemma raise_preds:
  assumes inv: "sl_inv ml lvl hdr h ns"
    and len: "length update = ml + 1"
    and low: "\<And>i. i \<le> lvl \<Longrightarrow> deref update i = Some (pred_at hdr k ns i)"
    and rl: "rl \<le> ml"
  shows "\<exists>update1. (if rl > lvl then map_option (\<lambda>u. (u, rl)) (raise_update update hdr lvl rl)
                     else Some (update, lvl)) = Some (update1, max lvl rl)
           \<and> (\<forall>i \<le> rl. deref update1 i = Some (pred_at hdr k ns i))"
proof (cases "rl > lvl")
  case False
  then have "max lvl rl = lvl" by simp
  with False low show ?thesis by auto
next
  case True
  let ?u1 = "map (\<lambda>i. if lvl + 1 \<le> i \<and> i < rl + 1 then Some hdr else update ! i) [0..<length update]"
  have r: "raise_update update hdr lvl rl = Some ?u1"
    unfolding raise_update_def by (rule for_each_set_slot) (use len rl in simp)
  have "deref ?u1 i = Some (pred_at hdr k ns i)" if "i \<le> rl" for i
  proof -
    from that rl len have i: "i < length update" by simp
    show ?thesis
    proof (cases "i \<le> lvl")
      case True
      with low [OF True] i show ?thesis by (simp add: deref_def slot_def del: upt_Suc)
    next
      case False
      then have "pred_at hdr k ns i = hdr" by (intro pred_at_above [OF inv]) simp
      with False that i show ?thesis by (simp add: deref_def slot_def del: upt_Suc)
    qed
  qed
  moreover from True have "max lvl rl = rl" by simp
  ultimately show ?thesis using True r by auto
qed

lemma get_random_level_le: "get_random_level ml coins \<le> ml"
  by (simp add: get_random_level_def Let_def)

section \<open>Unsplicing a node\<close>

lemma unsplice_step:
  assumes sg: "seg h i (Some hdr) ((F @ [u]) @ c # R) None"
    and dist: "u \<notin> set F" "u \<notin> set R"
  shows "\<exists>nx h1. get_forward h u i = Some (Some c) \<and> get_forward h c i = Some nx
           \<and> set_forward h u i nx = Some h1
           \<and> seg h1 i (Some hdr) ((F @ [u]) @ R) None
           \<and> (\<forall>b j. (b, j) \<noteq> (u, i) \<longrightarrow> get_forward h1 b j = get_forward h b j)
           \<and> same_data h h1"
proof -
  from sg obtain nx where fu: "seg h i (Some hdr) F (Some u)" "get_forward h u i = Some (Some c)"
    and cn: "get_forward h c i = Some nx" and sr: "seg h i nx R None"
    unfolding seg_append by auto
  from set_forward_defined [OF fu(2)] obtain h1 where h1: "set_forward h u i nx = Some h1"
    by blast
  have gf: "get_forward h1 b j = (if b = u \<and> j = i then Some nx else get_forward h b j)" for b j
    by (rule get_forward_set_forward [OF h1])
  have "seg h1 i (Some hdr) F (Some u) = seg h i (Some hdr) F (Some u)"
    by (rule seg_frame) (use dist in \<open>auto simp: gf\<close>)
  with fu have 1: "seg h1 i (Some hdr) F (Some u)" by simp
  have "seg h1 i nx R None = seg h i nx R None"
    by (rule seg_frame) (use dist in \<open>auto simp: gf\<close>)
  with sr have 2: "seg h1 i nx R None" by simp
  from 2 have "seg h1 i (Some u) ([u] @ R) None" by (simp add: gf)
  with 1 have "seg h1 i (Some hdr) (F @ [u] @ R) None"
    unfolding seg_append [of h1 i "Some hdr" F] by blast
  then have "seg h1 i (Some hdr) ((F @ [u]) @ R) None" by simp
  moreover have "same_data h h1" by (rule same_data_set_forward [OF h1])
  ultimately show ?thesis using fu cn h1 by (auto simp: gf)
qed

lemma lev_above: "t_lvl t < j \<Longrightarrow> lev j (xs @ t # ys) = lev j (xs @ ys)"
  by (simp add: lev_Cons)

lemma unsplice_loop:
  assumes inv: "sl_inv ml lvl hdr h ns"
    and split: "ns = pre @ t # rest" "pre = towers_before k ns"
    and upd: "\<And>i. i \<le> lvl \<Longrightarrow> deref update i = Some (pred_at hdr k ns i)"
  shows "m \<le> t_lvl t + 1 \<Longrightarrow> d = t_lvl t + 1 - m \<Longrightarrow> same_data h hm
     \<Longrightarrow> (\<And>j. j < m \<Longrightarrow> seg hm j (Some hdr) (hdr # lev j (pre @ rest)) None)
     \<Longrightarrow> (\<And>j. m \<le> j \<Longrightarrow> j \<le> ml \<Longrightarrow> seg hm j (Some hdr) (hdr # lev j ns) None)
     \<Longrightarrow> \<exists>h'. unsplice [m..<lvl + 1] update (t_addr t) hm = Some h'
           \<and> same_data h h'
           \<and> (\<forall>j \<le> ml. seg h' j (Some hdr) (hdr # lev j (pre @ rest)) None)"
proof (induction d arbitrary: m hm)
  case 0
  then have m: "m = t_lvl t + 1" by simp
  have fin: "seg hm j (Some hdr) (hdr # lev j (pre @ rest)) None" if "j \<le> ml" for j
  proof (cases "j < m")
    case True
    then show ?thesis by (rule 0(4))
  next
    case False
    with m have "t_lvl t < j" by simp
    then have "lev j (pre @ t # rest) = lev j (pre @ rest)" by (rule lev_above)
    then have "lev j ns = lev j (pre @ rest)" by (simp only: split(1))
    with 0(5) [of j] False that show ?thesis by simp
  qed
  show ?case
  proof (cases "m \<le> lvl")
    case False
    then have "[m..<lvl + 1] = []" by simp
    with fin 0(3) show ?thesis by simp
  next
    case True
    then have list: "[m..<lvl + 1] = m # [Suc m..<lvl + 1]" by (simp add: upt_conv_Cons)
    from True inv_level_le [OF inv] have mml: "m \<le> ml" by simp
    have "hdr # lev m ns = (hdr # lev m pre) @ lev m rest"
      using m by (subst split(1)) (simp add: lev_Cons)
    with 0(5) [OF _ mml] have "seg hm m (Some hdr) ((hdr # lev m pre) @ lev m rest) None"
      by simp
    from seg_last_forward [OF this]
    have gf: "get_forward hm (pred_at hdr k ns m) m = Some (first_of (lev m rest))"
      by (simp add: pred_at_def split(2) [symmetric])
    have "first_of (lev m rest) \<noteq> Some (t_addr t)"
    proof
      assume "first_of (lev m rest) = Some (t_addr t)"
      then have "t_addr t \<in> set (lev m rest)" by (cases "lev m rest") auto
      then have "t_addr t \<in> set (map t_addr rest)" using set_lev_subset by blast
      moreover have "distinct (map t_addr ns)" using inv_distinct [OF inv] by simp
      ultimately show False unfolding split(1) by simp
    qed
    with gf upd [OF True] list fin 0(3) show ?thesis by simp
  qed
next
  case (Suc d)
  then have m: "m \<le> t_lvl t" by simp
  have "t \<in> set ns" unfolding split(1) by simp
  from inv_lvl_le [OF inv this] m have mlvl: "m \<le> lvl" by simp
  with inv_level_le [OF inv] have mml: "m \<le> ml" by simp
  from mlvl have list: "[m..<lvl + 1] = m # [Suc m..<lvl + 1]" by (simp add: upt_conv_Cons)
  let ?L = "hdr # lev m pre" and ?u = "pred_at hdr k ns m" and ?c = "t_addr t"
  have "butlast ?L @ [?u] = ?L"
    unfolding pred_at_def split(2) [symmetric] by (rule append_butlast_last_id) simp
  then obtain F where L: "F @ [?u] = ?L" by blast
  have lm: "lev m ns = lev m pre @ ?c # lev m rest"
    using m by (subst split(1)) (simp add: lev_Cons)
  have full: "hdr # lev m ns = (F @ [?u]) @ ?c # lev m rest"
    by (simp only: lm L append_Cons)
  have "distinct (hdr # lev m ns)"
    using inv_distinct [OF inv] set_lev_subset [of m ns] by (auto simp: distinct_lev)
  then have dist: "?u \<notin> set F" "?u \<notin> set (lev m rest)" unfolding full by auto
  have sg: "seg hm m (Some hdr) ((F @ [?u]) @ ?c # lev m rest) None"
    unfolding full [symmetric] using Suc.prems(5) [OF _ mml] by simp
  from unsplice_step [OF sg dist]
  obtain nx h1 where st: "get_forward hm ?u m = Some (Some ?c)" "get_forward hm ?c m = Some nx"
    "set_forward hm ?u m nx = Some h1"
    and sg1: "seg h1 m (Some hdr) ((F @ [?u]) @ lev m rest) None"
    and fr: "\<And>b j. (b, j) \<noteq> (?u, m) \<Longrightarrow> get_forward h1 b j = get_forward hm b j"
    and sd1: "same_data hm h1" by blast
  have a1: "Suc m \<le> t_lvl t + 1" using m by simp
  have a2: "d = t_lvl t + 1 - Suc m" using Suc.prems(2) by simp
  have a3: "same_data h h1" using Suc.prems(3) sd1 by (rule same_data_trans)
  have a4: "seg h1 j (Some hdr) (hdr # lev j (pre @ rest)) None" if "j < Suc m" for j
  proof (cases "j = m")
    case True
    have e: "hdr # lev m (pre @ rest) = (F @ [?u]) @ lev m rest"
      by (simp only: L lev_append append_Cons)
    show ?thesis unfolding True e by (rule sg1)
  next
    case False
    with that have jm: "j < m" by simp
    have "seg h1 j (Some hdr) (hdr # lev j (pre @ rest)) None
            = seg hm j (Some hdr) (hdr # lev j (pre @ rest)) None"
      by (rule seg_frame) (simp add: fr False)
    with Suc.prems(4) [OF jm] show ?thesis by simp
  qed
  have a5: "seg h1 j (Some hdr) (hdr # lev j ns) None" if "Suc m \<le> j" "j \<le> ml" for j
  proof -
    from that have "j \<noteq> m" "m \<le> j" by simp_all
    have "seg h1 j (Some hdr) (hdr # lev j ns) None = seg hm j (Some hdr) (hdr # lev j ns) None"
      by (rule seg_frame) (simp add: fr \<open>j \<noteq> m\<close>)
    with Suc.prems(5) [OF \<open>m \<le> j\<close> that(2)] show ?thesis by simp
  qed
  from Suc.IH [OF a1 a2 a3 a4 a5]
  obtain h' where "unsplice [Suc m..<lvl + 1] update ?c h1 = Some h'" "same_data h h'"
    "\<forall>j \<le> ml. seg h' j (Some hdr) (hdr # lev j (pre @ rest)) None" by blast
  with list upd [OF mlvl] st show ?case by simp
qed

section \<open>Lowering the level and freeing the node\<close>

lemma header_forward:
  assumes "sl_inv ml lvl hdr h ns" "j \<le> ml"
  shows "get_forward h hdr j = Some (first_of (lev j ns))"
proof -
  from inv_seg [OF assms] obtain r where "get_forward h hdr j = Some r" "seg h j r (lev j ns) None"
    by auto
  then show ?thesis by (cases "lev j ns") auto
qed

lemma max_lvl_of_le_iff: "max_lvl_of ns \<le> l \<longleftrightarrow> (\<forall>t \<in> set ns. t_lvl t \<le> l)"
  by (simp add: max_lvl_of_def)

lemma lev_empty_iff: "lev j ns = [] \<longleftrightarrow> (\<forall>t \<in> set ns. t_lvl t < j)"
  by (auto simp: lev_def filter_empty_conv)

lemma lower_level_eq:
  assumes hf: "\<And>j. j \<le> ml \<Longrightarrow> get_forward h hdr j = Some (first_of (lev j ns))"
  shows "l \<le> ml \<Longrightarrow> max_lvl_of ns \<le> l \<Longrightarrow> lower_level h hdr l = Some (max_lvl_of ns)"
proof (induction l)
  case 0
  then show ?case by simp
next
  case (Suc l)
  show ?case
  proof (cases "lev (Suc l) ns = []")
    case True
    then have "\<forall>t \<in> set ns. t_lvl t \<le> l" by (auto simp: lev_empty_iff)
    then have "max_lvl_of ns \<le> l" by (simp add: max_lvl_of_le_iff)
    with Suc.IH Suc.prems have "lower_level h hdr l = Some (max_lvl_of ns)" by simp
    with hf [OF Suc.prems(1)] True show ?thesis by simp
  next
    case False
    then obtain t where "t \<in> set ns" "Suc l \<le> t_lvl t" by (auto simp: lev_empty_iff not_less)
    with max_lvl_of_ge [of t ns] Suc.prems(2) have "max_lvl_of ns = Suc l" by simp
    moreover from False obtain y where "first_of (lev (Suc l) ns) = Some y"
      by (cases "lev (Suc l) ns") auto
    ultimately show ?thesis using hf [OF Suc.prems(1)] by simp
  qed
qed

lemma node_at_free: "b \<noteq> c \<Longrightarrow> node_at (h[c := x]) b = node_at h b"
  by (simp add: node_at_def)

lemma get_forward_free:
  "b \<noteq> c \<Longrightarrow> get_forward (h[c := x]) b j = get_forward h b j"
  by (simp add: get_forward_def node_at_def)

lemma tower_ok_free: "t_addr t \<noteq> c \<Longrightarrow> tower_ok (h[c := x]) t = tower_ok h t"
  by (simp add: tower_ok_def node_at_def)

lemma delete_structure:
  assumes inv: "sl_inv ml lvl hdr h ns"
    and t: "t \<in> set ns" "t_key t = k"
    and upd: "\<And>i. i \<le> lvl \<Longrightarrow> deref update i = Some (pred_at hdr k ns i)"
  shows "\<exists>h'. unsplice [0..<lvl + 1] update (t_addr t) h = Some h'
           \<and> same_data h h'
           \<and> lower_level h' hdr lvl = Some (max_lvl_of (towers_before k ns @ tl (towers_from k ns)))
           \<and> sl_inv ml (max_lvl_of (towers_before k ns @ tl (towers_from k ns))) hdr
                (h'[t_addr t := None]) (towers_before k ns @ tl (towers_from k ns))"
proof -
  let ?pre = "towers_before k ns"
  from towers_from_present [OF inv_sorted [OF inv] t] obtain rest
    where rest: "towers_from k ns = t # rest" by blast
  have split: "ns = ?pre @ t # rest" using towers_split [of k ns] rest by simp
  let ?ns = "?pre @ rest" and ?c = "t_addr t"
  have "\<exists>h'. unsplice [0..<lvl + 1] update ?c h = Some h' \<and> same_data h h'
           \<and> (\<forall>j \<le> ml. seg h' j (Some hdr) (hdr # lev j (?pre @ rest)) None)"
  proof (rule unsplice_loop [OF inv split refl upd])
    show "0 \<le> t_lvl t + 1" by simp
    show "t_lvl t + 1 = t_lvl t + 1 - 0" by simp
    show "same_data h h" by (rule same_data_refl)
    show "\<And>j. j < 0 \<Longrightarrow> seg h j (Some hdr) (hdr # lev j (?pre @ rest)) None" by simp
    show "\<And>j. 0 \<le> j \<Longrightarrow> j \<le> ml \<Longrightarrow> seg h j (Some hdr) (hdr # lev j ns) None"
      by (rule inv_seg [OF inv])
  qed
  then obtain h' where h': "unsplice [0..<lvl + 1] update ?c h = Some h'"
    and sd: "same_data h h'"
    and segs: "\<And>j. j \<le> ml \<Longrightarrow> seg h' j (Some hdr) (hdr # lev j ?ns) None" by blast
  have sub: "set ?ns \<subseteq> set ns" by (subst (2) split) auto
  have d: "distinct (hdr # map t_addr ns)" by (rule inv_distinct [OF inv])
  then have d': "distinct (hdr # map t_addr ?ns)" by (subst (asm) split) simp
  from d have cnot: "?c \<notin> set (hdr # map t_addr ?ns)" by (subst (asm) split) auto
  have "sorted_wrt (<) (map t_key ns)" by (rule inv_sorted [OF inv])
  then have srt: "sorted_wrt (<) (map t_key ?ns)"
    by (subst (asm) split) (auto simp: sorted_wrt_append)
  have le: "max_lvl_of ?ns \<le> lvl"
    using sub inv_lvl_le [OF inv] by (auto simp: max_lvl_of_le_iff)
  have hf: "get_forward h' hdr j = Some (first_of (lev j ?ns))" if "j \<le> ml" for j
  proof -
    from segs [OF that] obtain r where "get_forward h' hdr j = Some r" "seg h' j r (lev j ?ns) None"
      by auto
    then show ?thesis by (cases "lev j ?ns") auto
  qed
  have low: "lower_level h' hdr lvl = Some (max_lvl_of ?ns)"
    using hf inv_level_le [OF inv] le by (rule lower_level_eq)
  let ?h = "h'[?c := None]"
  have tok: "tower_ok ?h u" if "u \<in> set ?ns" for u
  proof -
    from that sub have "u \<in> set ns" by blast
    with inv have "tower_ok h u" by (simp add: sl_inv_def)
    with sd have "tower_ok h' u" by (rule same_data_tower_ok)
    moreover from that have "t_addr u \<in> set (hdr # map t_addr ?ns)" by auto
    with cnot have "t_addr u \<noteq> ?c" by metis
    ultimately show ?thesis by (simp add: tower_ok_free)
  qed
  have hd: "case node_at ?h hdr of None \<Rightarrow> False | Some n \<Rightarrow> length (forward n) = ml + 1"
  proof -
    from inv_header [OF inv] obtain n where n: "node_at h hdr = Some n"
      "length (forward n) = ml + 1" by blast
    from same_data_node_at [OF sd n(1)] obtain n' where n': "node_at h' hdr = Some n'"
      "length (forward n') = length (forward n)" by blast
    from cnot have "hdr \<noteq> ?c" by auto
    then have "node_at ?h hdr = node_at h' hdr" by (rule node_at_free)
    with n' n(2) show ?thesis by simp
  qed
  have segs': "seg ?h j (Some hdr) (hdr # lev j ?ns) None" if "j \<le> ml" for j
  proof -
    have "b \<noteq> ?c" if "b \<in> set (hdr # lev j ?ns)" for b
      using that cnot set_lev_subset [of j ?ns] by auto
    then have "seg ?h j (Some hdr) (hdr # lev j ?ns) None = seg h' j (Some hdr) (hdr # lev j ?ns) None"
      by (intro seg_frame get_forward_free)
    with segs [OF that] show ?thesis by simp
  qed
  have "sl_inv ml (max_lvl_of ?ns) hdr ?h ?ns"
    unfolding sl_inv_def using d' srt tok hd le inv_level_le [OF inv] segs' by simp
  with h' sd low rest show ?thesis by simp
qed

section \<open>Walking a level\<close>

lemma walk_keys_seg:
  assumes "seg h j p as None" "\<And>a. a \<in> set as \<Longrightarrow> get_key h a = Some (f a)"
  shows "walk_keys h j p acc = Some (acc @ map f as)"
  using assms
proof (induction as arbitrary: p acc)
  case Nil
  then show ?case by (subst walk_keys.simps) simp
next
  case (Cons a as)
  from Cons.prems(1) obtain r where r: "p = Some a" "get_forward h a j = Some r" "seg h j r as None"
    by auto
  from Cons.IH [OF r(3), of "acc @ [f a]"] Cons.prems(2)
  have "walk_keys h j r (acc @ [f a]) = Some (acc @ f a # map f as)" by simp
  with r Cons.prems(2) [of a] show ?case by (subst walk_keys.simps) simp
qed

section \<open>The operations of the optimized list\<close>

lemma find_position:
  assumes inv: "sl_inv ml lvl hdr h ns"
  shows "\<exists>update. seek_update h k lvl hdr (replicate (ml + 1) None) = Some (pred_at hdr k ns 0, update)
           \<and> length update = ml + 1
           \<and> (\<forall>i \<le> lvl. deref update i = Some (pred_at hdr k ns i))
           \<and> get_forward h (pred_at hdr k ns 0) 0 = Some (first_of (map t_addr (towers_from k ns)))
           \<and> key_matches h (first_of (map t_addr (towers_from k ns))) k = Some (k \<in> t_key ` set ns)"
  using find_preds [OF inv, of k] candidate [OF inv, of k] key_matches_candidate [OF inv, of k]
  by blast

lemma insert_element_existing:
  assumes "opt_inv s ns" "k \<in> t_key ` set ns"
  shows "insert_element s k v coins = Some (1, s)"
proof -
  from assms(1) have inv: "sl_inv (max_level s) (skip_list_level s) (header s) (heap s) ns"
    by (simp add: opt_inv_def skiplist_inv_def)
  from find_position [OF inv, of k] assms(2) obtain update where
    su: "seek_update (heap s) k (skip_list_level s) (header s) (replicate (max_level s + 1) None)
           = Some (pred_at (header s) k ns 0, update)"
    and cand: "get_forward (heap s) (pred_at (header s) k ns 0) 0
                 = Some (first_of (map t_addr (towers_from k ns)))"
    and km: "key_matches (heap s) (first_of (map t_addr (towers_from k ns))) k = Some True"
    by auto
  show ?thesis unfolding insert_element_def su by (simp add: cand km)
qed

lemma allocate_fresh:
  "free_list pool = [] \<Longrightarrow>
     allocate pool k v level =
       Some (new_NodeOpt k v level, pool\<lparr>allocated_count := allocated_count pool + 1\<rparr>)"
  by (simp add: allocate_def)

lemma insert_element_new:
  assumes oi: "opt_inv s ns" and fresh: "k \<notin> t_key ` set ns"
  shows "\<exists>h'. insert_element s k v coins =
            Some (0, s\<lparr>skip_list_level := max (skip_list_level s) (get_random_level (max_level s) coins),
                        heap := h',
                        element_count := element_count s + 1,
                        memory_pool := (memory_pool s)\<lparr>allocated_count :=
                                          allocated_count (memory_pool s) + 1\<rparr>\<rparr>)
          \<and> same_data (heap s @ [Some (new_NodeOpt k v (get_random_level (max_level s) coins))]) h'
          \<and> sl_inv (max_level s) (max (skip_list_level s) (get_random_level (max_level s) coins))
               (header s) h'
               (towers_before k ns
                  @ (length (heap s), k, get_random_level (max_level s) coins) # towers_from k ns)"
proof -
  let ?rl = "get_random_level (max_level s) coins"
  let ?n0 = "new_NodeOpt k v ?rl"
  from oi have inv: "sl_inv (max_level s) (skip_list_level s) (header s) (heap s) ns"
    and fl: "free_list (memory_pool s) = []"
    by (simp_all add: opt_inv_def skiplist_inv_def)
  from find_position [OF inv, of k] fresh obtain update where
    su: "seek_update (heap s) k (skip_list_level s) (header s) (replicate (max_level s + 1) None)
           = Some (pred_at (header s) k ns 0, update)"
    and len: "length update = max_level s + 1"
    and low: "\<And>i. i \<le> skip_list_level s \<Longrightarrow> deref update i = Some (pred_at (header s) k ns i)"
    and cand: "get_forward (heap s) (pred_at (header s) k ns 0) 0
                 = Some (first_of (map t_addr (towers_from k ns)))"
    and km: "key_matches (heap s) (first_of (map t_addr (towers_from k ns))) k = Some False"
    by auto
  have rl: "?rl \<le> max_level s" by (rule get_random_level_le)
  from raise_preds [OF inv len low rl] obtain update1 where
    ru: "(if ?rl > skip_list_level s
          then map_option (\<lambda>u. (u, ?rl)) (raise_update update (header s) (skip_list_level s) ?rl)
          else Some (update, skip_list_level s)) = Some (update1, max (skip_list_level s) ?rl)"
    and upd: "\<And>i. i \<le> ?rl \<Longrightarrow> deref update1 i = Some (pred_at (header s) k ns i)"
    by blast
  have n0: "length (forward ?n0) = ?rl + 1" "key ?n0 = k" "node_level ?n0 = ?rl"
    by (simp_all add: new_NodeOpt_def)
  from splice_new_node [OF inv rl n0 fresh upd] obtain h' where
    sp: "splice_node update1 (length (heap s)) ?rl (heap s @ [Some ?n0]) = Some h'"
    and sd: "same_data (heap s @ [Some ?n0]) h'"
    and inv': "sl_inv (max_level s) (max (skip_list_level s) ?rl) (header s) h'
                 (towers_before k ns @ (length (heap s), k, ?rl) # towers_from k ns)"
    by blast
  have "insert_element s k v coins =
          Some (0, s\<lparr>skip_list_level := max (skip_list_level s) ?rl, heap := h',
                      element_count := element_count s + 1,
                      memory_pool := (memory_pool s)\<lparr>allocated_count :=
                                        allocated_count (memory_pool s) + 1\<rparr>\<rparr>)"
  proof (cases "?rl > skip_list_level s")
    case True
    with ru have "raise_update update (header s) (skip_list_level s) ?rl = Some update1"
      by auto
    with True show ?thesis
      unfolding insert_element_def su
      by (simp add: cand km sp allocate_fresh [OF fl] Let_def max_def)
  next
    case False
    with ru have "update1 = update" by simp
    with False sp show ?thesis
      unfolding insert_element_def su
      by (simp add: cand km allocate_fresh [OF fl] Let_def max_def)
  qed
  with sd inv' show ?thesis by blast
qed

lemma opt_inv_sl:
  "opt_inv s ns \<Longrightarrow> sl_inv (max_level s) (skip_list_level s) (header s) (heap s) ns"
  by (simp add: opt_inv_def skiplist_inv_def)

lemma insert_element_inv:
  assumes oi: "opt_inv s ns"
  shows "\<exists>r s' ns'. insert_element s k v coins = Some (r, s') \<and> opt_inv s' ns'"
proof (cases "k \<in> t_key ` set ns")
  case True
  from insert_element_existing [OF oi True] oi show ?thesis by blast
next
  case False
  from insert_element_new [OF oi False, of v coins] obtain h' s' where
    s': "s' = s\<lparr>skip_list_level := max (skip_list_level s) (get_random_level (max_level s) coins),
                 heap := h',
                 element_count := element_count s + 1,
                 memory_pool := (memory_pool s)\<lparr>allocated_count :=
                                   allocated_count (memory_pool s) + 1\<rparr>\<rparr>"
    and ins: "insert_element s k v coins = Some (0, s')"
    and inv: "sl_inv (max_level s) (max (skip_list_level s) (get_random_level (max_level s) coins))
               (header s) h'
               (towers_before k ns
                  @ (length (heap s), k, get_random_level (max_level s) coins) # towers_from k ns)"
    by blast
  from oi have "free_list (memory_pool s) = []" by (simp add: opt_inv_def)
  with inv s' have "opt_inv s' (towers_before k ns
       @ (length (heap s), k, get_random_level (max_level s) coins) # towers_from k ns)"
    by (simp add: opt_inv_def skiplist_inv_def)
  with ins show ?thesis by blast
qed

lemma delete_element_absent:
  assumes oi: "opt_inv s ns" and "k \<notin> t_key ` set ns"
  shows "delete_element s k = Some s"
proof -
  from find_position [OF opt_inv_sl [OF oi], of k] assms(2) obtain update where
    su: "seek_update (heap s) k (skip_list_level s) (header s) (replicate (max_level s + 1) None)
           = Some (pred_at (header s) k ns 0, update)"
    and cand: "get_forward (heap s) (pred_at (header s) k ns 0) 0
                 = Some (first_of (map t_addr (towers_from k ns)))"
    and km: "key_matches (heap s) (first_of (map t_addr (towers_from k ns))) k = Some False"
    by auto
  show ?thesis unfolding delete_element_def su by (simp add: cand km)
qed

lemma delete_element_present:
  assumes oi: "opt_inv s ns" and t: "t \<in> set ns" "t_key t = k"
  shows "\<exists>h'. delete_element s k =
            Some (s\<lparr>skip_list_level := max_lvl_of (towers_before k ns @ tl (towers_from k ns)),
                    heap := h'[t_addr t := None],
                    element_count := element_count s - 1\<rparr>)
          \<and> same_data (heap s) h'
          \<and> sl_inv (max_level s) (max_lvl_of (towers_before k ns @ tl (towers_from k ns)))
               (header s) (h'[t_addr t := None]) (towers_before k ns @ tl (towers_from k ns))"
proof -
  note inv = opt_inv_sl [OF oi]
  from t have kin: "k \<in> t_key ` set ns" by auto
  from find_position [OF inv, of k] kin obtain update where
    su: "seek_update (heap s) k (skip_list_level s) (header s) (replicate (max_level s + 1) None)
           = Some (pred_at (header s) k ns 0, update)"
    and low: "\<And>i. i \<le> skip_list_level s \<Longrightarrow> deref update i = Some (pred_at (header s) k ns i)"
    and cand: "get_forward (heap s) (pred_at (header s) k ns 0) 0
                 = Some (first_of (map t_addr (towers_from k ns)))"
    and km: "key_matches (heap s) (first_of (map t_addr (towers_from k ns))) k = Some True"
    by auto
  from towers_from_present [OF inv_sorted [OF inv] t] obtain rest
    where rest: "towers_from k ns = t # rest" by blast
  from delete_structure [OF inv t low] obtain h' where
    un: "unsplice [0..<skip_list_level s + 1] update (t_addr t) (heap s) = Some h'"
    and sd: "same_data (heap s) h'"
    and ll: "lower_level h' (header s) (skip_list_level s)
               = Some (max_lvl_of (towers_before k ns @ tl (towers_from k ns)))"
    and inv': "sl_inv (max_level s) (max_lvl_of (towers_before k ns @ tl (towers_from k ns)))
               (header s) (h'[t_addr t := None]) (towers_before k ns @ tl (towers_from k ns))"
    by blast
  have "delete_element s k =
            Some (s\<lparr>skip_list_level := max_lvl_of (towers_before k ns @ tl (towers_from k ns)),
                    heap := h'[t_addr t := None],
                    element_count := element_count s - 1\<rparr>)"
  proof -
    from cand rest have cand': "get_forward (heap s) (pred_at (header s) k ns 0) 0
                 = Some (Some (t_addr t))" by simp
    from km rest have km': "key_matches (heap s) (Some (t_addr t)) k = Some True" by simp
    show ?thesis
      unfolding delete_element_def su
      by (simp only: cand' km' un ll Option.bind.simps split_conv if_True)
  qed
  with sd inv' show ?thesis by blast
qed

lemma delete_element_inv:
  assumes oi: "opt_inv s ns"
  shows "\<exists>s' ns'. delete_element s k = Some s' \<and> opt_inv s' ns'"
proof (cases "k \<in> t_key ` set ns")
  case False
  from delete_element_absent [OF oi False] oi show ?thesis by blast
next
  case True
  then obtain t where t: "t \<in> set ns" "t_key t = k" by auto
  from delete_element_present [OF oi t] obtain h' s' where
    s': "s' = s\<lparr>skip_list_level := max_lvl_of (towers_before k ns @ tl (towers_from k ns)),
                 heap := h'[t_addr t := None],
                 element_count := element_count s - 1\<rparr>"
    and del: "delete_element s k = Some s'"
    and inv: "sl_inv (max_level s) (max_lvl_of (towers_before k ns @ tl (towers_from k ns)))
               (header s) (h'[t_addr t := None]) (towers_before k ns @ tl (towers_from k ns))"
    by blast
  from oi have "free_list (memory_pool s) = []" by (simp add: opt_inv_def)
  with inv s' have "opt_inv s' (towers_before k ns @ tl (towers_from k ns))"
    by (simp add: opt_inv_def skiplist_inv_def)
  with del show ?thesis by blast
qed

lemma new_SkipListOptimized_inv: "opt_inv (new_SkipListOptimized ml hk hv) []"
proof -
  have "seg [Some (new_NodeOpt hk hv ml)] j (Some 0) [0] None" if "j \<le> ml" for j
    using that by (simp add: get_forward_def node_at_def slot_def new_NodeOpt_def nth_Cons')
  then show ?thesis
    by (simp add: opt_inv_def skiplist_inv_def sl_inv_def new_SkipListOptimized_def
        new_NodeMemoryPool_def node_at_def new_NodeOpt_def)
qed

lemma run_opt_inv:
  "opt_inv s ns \<Longrightarrow> \<exists>s' ns'. run_opt ops s = Some s' \<and> opt_inv s' ns'"
proof (induction ops arbitrary: s ns)
  case Nil
  then show ?case by auto
next
  case (Cons x ops)
  show ?case
  proof (cases x)
    case (Insert k v coins)
    from insert_element_inv [OF Cons.prems, of k v coins] obtain r s1 ns1
      where 1: "insert_element s k v coins = Some (r, s1)" "opt_inv s1 ns1" by blast
    from Cons.IH [OF 1(2)] 1(1) Insert show ?thesis by simp
  next
    case (Delete k)
    from delete_element_inv [OF Cons.prems, of k] obtain s1 ns1
      where 1: "delete_element s k = Some s1" "opt_inv s1 ns1" by blast
    from Cons.IH [OF 1(2)] 1(1) Delete show ?thesis by simp
  qed
qed

section \<open>What a walk over the list sees\<close>

lemma walk_keys_towers:
  assumes "seg h j p (map t_addr ts) None"
    and "\<And>t. t \<in> set ts \<Longrightarrow> get_key h (t_addr t) = Some (t_key t)"
  shows "walk_keys h j p acc = Some (acc @ map t_key ts)"
  using assms
proof (induction ts arbitrary: p acc)
  case Nil
  then show ?case by (subst walk_keys.simps) simp
next
  case (Cons t ts)
  from Cons.prems(1) obtain r where r: "p = Some (t_addr t)" "get_forward h (t_addr t) j = Some r"
    "seg h j r (map t_addr ts) None" by auto
  from Cons.IH [OF r(3), of "acc @ [t_key t]"] Cons.prems(2)
  have "walk_keys h j r (acc @ [t_key t]) = Some (acc @ t_key t # map t_key ts)" by simp
  with r Cons.prems(2) [of t] show ?case by (subst walk_keys.simps) simp
qed

lemma walk_addrs_seg:
  "seg h 0 p as None \<Longrightarrow> walk_addrs h p acc = Some (acc @ as)"
proof (induction as arbitrary: p acc)
  case Nil
  then show ?case by (subst walk_addrs.simps) simp
next
  case (Cons a as)
  from Cons.prems obtain r where r: "p = Some a" "get_forward h a 0 = Some r" "seg h 0 r as None"
    by auto
  from Cons.IH [OF r(3), of "acc @ [a]"] r show ?case by (subst walk_addrs.simps) simp
qed

lemma node_levels_towers:
  "(\<And>t. t \<in> set ts \<Longrightarrow> tower_ok h t) \<Longrightarrow> node_levels h (map t_addr ts) = Some (map t_lvl ts)"
proof (induction ts)
  case Nil
  then show ?case by simp
next
  case (Cons t ts)
  from Cons.prems [of t] obtain n where "node_at h (t_addr t) = Some n" "node_level n = t_lvl t"
    by (auto simp: tower_ok_def split: option.splits)
  with Cons show ?case by simp
qed

lemma level_keys_towers:
  assumes inv: "skiplist_inv s ns" and j: "j \<le> max_level s"
  shows "level_keys s j = Some (map t_key (filter (\<lambda>t. j \<le> t_lvl t) ns))"
proof -
  from inv have sl: "sl_inv (max_level s) (skip_list_level s) (header s) (heap s) ns"
    by (simp add: skiplist_inv_def)
  from inv_seg [OF sl j] obtain r where r: "get_forward (heap s) (header s) j = Some r"
    "seg (heap s) j r (map t_addr (filter (\<lambda>t. j \<le> t_lvl t) ns)) None"
    by (auto simp: lev_def)
  have "walk_keys (heap s) j r [] = Some ([] @ map t_key (filter (\<lambda>t. j \<le> t_lvl t) ns))"
    by (rule walk_keys_towers [OF r(2)]) (simp add: inv_get_key [OF sl])
  with r(1) show ?thesis by (simp add: level_keys_def)
qed

lemma sorted_level:
  assumes "sorted_wrt (<) (map t_key ns)"
  shows "sorted_wrt (<) (map t_key (filter P ns))"
proof -
  from assms have "sorted_wrt (\<lambda>x y. t_key x < t_key y) ns" by (simp add: sorted_wrt_map)
  then have "sorted_wrt (\<lambda>x y. t_key x < t_key y) (filter P ns)" by (rule sorted_wrt_filter)
  then show ?thesis by (simp add: sorted_wrt_map)
qed

lemma live_nodes_towers:
  assumes inv: "skiplist_inv s ns"
  shows "live_nodes s = Some (map t_addr ns)"
proof -
  from inv have sl: "sl_inv (max_level s) (skip_list_level s) (header s) (heap s) ns"
    by (simp add: skiplist_inv_def)
  have "seg (heap s) 0 (Some (header s)) (header s # lev 0 ns) None"
    by (rule inv_seg [OF sl]) simp
  then obtain r where r: "get_forward (heap s) (header s) 0 = Some r"
    "seg (heap s) 0 r (map t_addr ns) None" by auto
  from walk_addrs_seg [OF r(2), of "[]"] r(1) show ?thesis by (simp add: live_nodes_def)
qed

lemma tower_heights_towers:
  assumes inv: "skiplist_inv s ns"
  shows "tower_heights s = Some (map t_lvl ns)"
proof -
  from inv have "\<And>t. t \<in> set ns \<Longrightarrow> tower_ok (heap s) t"
    by (simp add: skiplist_inv_def sl_inv_def)
  then have "node_levels (heap s) (map t_addr ns) = Some (map t_lvl ns)"
    by (rule node_levels_towers)
  with live_nodes_towers [OF inv] show ?thesis by (simp add: tower_heights_def)
qed

lemma top_level_occupied:
  assumes inv: "skiplist_inv s ns" and pos: "skip_list_level s \<noteq> 0"
  shows "\<exists>a. get_forward (heap s) (header s) (skip_list_level s) = Some (Some a)"
proof -
  from inv have sl: "sl_inv (max_level s) (skip_list_level s) (header s) (heap s) ns"
    by (simp add: skiplist_inv_def)
  then have lvl: "skip_list_level s = max_lvl_of ns" by (simp add: sl_inv_def)
  with pos have "ns \<noteq> []" by auto
  from max_lvl_of_in [OF this] lvl obtain t where "t \<in> set ns" "t_lvl t = skip_list_level s"
    by auto
  then have "\<not> (\<forall>u \<in> set ns. t_lvl u < skip_list_level s)" by force
  then have "lev (skip_list_level s) ns \<noteq> []" by (simp only: lev_empty_iff not_False_eq_True)
  then obtain a as where "lev (skip_list_level s) ns = a # as"
    by (cases "lev (skip_list_level s) ns") auto
  with header_forward [OF sl inv_level_le [OF sl]] show ?thesis by simp
qed

section \<open>The level of the optimized list\<close>

section \<open>The live nodes before and after a deletion\<close>

lemma node_entries_towers:
  "(\<And>t. t \<in> set ts \<Longrightarrow> tower_ok h t)
     \<Longrightarrow> node_entries h (map t_addr ts) = Some (map (\<lambda>t. (t_key t, t_lvl t)) ts)"
proof (induction ts)
  case Nil
  then show ?case by simp
next
  case (Cons t ts)
  from Cons.prems [of t] obtain n where "node_at h (t_addr t) = Some n" "key n = t_key t"
    "node_level n = t_lvl t"
    by (auto simp: tower_ok_def split: option.splits)
  with Cons show ?case by simp
qed

lemma live_entries_towers:
  assumes inv: "skiplist_inv s ns"
  shows "live_entries s = Some (map (\<lambda>t. (t_key t, t_lvl t)) ns)"
proof -
  from inv have "\<And>t. t \<in> set ns \<Longrightarrow> tower_ok (heap s) t"
    by (simp add: skiplist_inv_def sl_inv_def)
  then have "node_entries (heap s) (map t_addr ns) = Some (map (\<lambda>t. (t_key t, t_lvl t)) ns)"
    by (rule node_entries_towers)
  with live_nodes_towers [OF inv] show ?thesis by (simp add: live_entries_def)
qed

lemma towers_without_absent:
  assumes "k \<notin> t_key ` set ns"
  shows "filter (\<lambda>t. t_key t \<noteq> k) ns = ns"
  using assms by (induction ns) auto

lemma towers_without_present:
  assumes srt: "sorted_wrt (<) (map t_key ns)" and t: "t \<in> set ns" "t_key t = k"
  shows "filter (\<lambda>t. t_key t \<noteq> k) ns = towers_before k ns @ tl (towers_from k ns)"
proof -
  from towers_from_present [OF srt t] obtain rest where rest: "towers_from k ns = t # rest"
    by blast
  have split: "ns = towers_before k ns @ t # rest" using towers_split [of k ns] rest by simp
  have "\<forall>u \<in> set (towers_before k ns). t_key u \<noteq> k"
    using towers_before_lt [of _ k ns] by auto
  then have b: "filter (\<lambda>t. t_key t \<noteq> k) (towers_before k ns) = towers_before k ns"
    by (rule filter_True)
  from srt have "sorted_wrt (<) (map t_key (towers_before k ns @ t # rest))"
    by (subst split [symmetric])
  then have "\<forall>u \<in> set rest. t_key t < t_key u" by (simp add: sorted_wrt_append)
  with t(2) have "\<forall>u \<in> set rest. t_key u \<noteq> k" by auto
  then have r: "filter (\<lambda>t. t_key t \<noteq> k) rest = rest" by (simp add: filter_True)
  have "filter (\<lambda>t. t_key t \<noteq> k) ns
          = filter (\<lambda>t. t_key t \<noteq> k) (towers_before k ns)
            @ filter (\<lambda>t. t_key t \<noteq> k) (t # rest)"
    by (subst split) (simp only: filter_append)
  also have "\<dots> = towers_before k ns @ rest" using b r t(2) by simp
  finally show ?thesis using rest by simp
qed

text \<open>
  What \<open>delete_element\<close> does to the list: the towers with another key stay, and
  the level becomes the largest of their heights.
\<close>

lemma delete_element_towers:
  assumes oi: "opt_inv s ns"
  shows "\<exists>s'. delete_element s k = Some s'
           \<and> opt_inv s' (filter (\<lambda>t. t_key t \<noteq> k) ns)
           \<and> max_level s' = max_level s \<and> header s' = header s
           \<and> (k \<notin> t_key ` set ns \<longrightarrow> s' = s)"
proof (cases "k \<in> t_key ` set ns")
  case False
  from delete_element_absent [OF oi False] oi towers_without_absent [OF False] False
  show ?thesis by simp
next
  case True
  then obtain t where t: "t \<in> set ns" "t_key t = k" by auto
  let ?ns' = "towers_before k ns @ tl (towers_from k ns)"
  from delete_element_present [OF oi t] obtain h' s' where
    s': "s' = s\<lparr>skip_list_level := max_lvl_of ?ns',
                 heap := h'[t_addr t := None],
                 element_count := element_count s - 1\<rparr>"
    and del: "delete_element s k = Some s'"
    and inv: "sl_inv (max_level s) (max_lvl_of ?ns') (header s) (h'[t_addr t := None]) ?ns'"
    by blast
  from oi have "free_list (memory_pool s) = []" by (simp add: opt_inv_def)
  with inv s' have "opt_inv s' ?ns'" by (simp add: opt_inv_def skiplist_inv_def)
  moreover have "filter (\<lambda>t. t_key t \<noteq> k) ns = ?ns'"
    by (rule towers_without_present [OF inv_sorted [OF opt_inv_sl [OF oi]] t])
  moreover from s' have "max_level s' = max_level s" "header s' = header s" by simp_all
  ultimately show ?thesis using del True by simp
qed

lemma entries_without:
  "filter (\<lambda>e. fst e \<noteq> k) (map (\<lambda>t. (t_key t, t_lvl t)) ns)
     = map (\<lambda>t. (t_key t, t_lvl t)) (filter (\<lambda>t. t_key t \<noteq> k) ns)"
  by (induction ns) auto

lemma header_null_above:
  assumes inv: "skiplist_inv s ns" and j: "skip_list_level s < j" "j \<le> max_level s"
  shows "get_forward (heap s) (header s) j = Some None"
proof -
  from inv have sl: "sl_inv (max_level s) (skip_list_level s) (header s) (heap s) ns"
    by (simp add: skiplist_inv_def)
  have "lev j ns = []" unfolding lev_empty_iff
  proof
    fix t assume "t \<in> set ns"
    from inv_lvl_le [OF sl this] j(1) show "t_lvl t < j" by simp
  qed
  with header_forward [OF sl j(2)] show ?thesis by simp
qed

text \<open>
  C9.  After any sequence of \<open>insert_element\<close> and \<open>delete_element\<close> calls on a
  fresh optimized list, a call of \<open>delete_element\<close> for key \<open>k\<close> returns.  The live
  nodes after the call (their keys and heights, read along level 0) are the live
  nodes before it without the node of key \<open>k\<close>; the call changes nothing when \<open>k\<close>
  has no node.  The current level after the call is the largest height of a
  remaining node, and 0 when none remains: deleting the last remaining node
  resets it to 0.  The level never grows, the header's forward pointers above the
  new level (up to the maximum level) are null, and the new level is 0 or the
  header's forward pointer at that level is not null: the level has been lowered
  exactly as long as the header's pointer at that level was null.
\<close>

theorem C9_level_after_delete:
  "\<exists>s s' es. run_opt ops (new_SkipListOptimized ml hk hv) = Some s
       \<and> delete_element s k = Some s'
       \<and> live_entries s = Some es
       \<and> live_entries s' = Some (filter (\<lambda>e. fst e \<noteq> k) es)
       \<and> skip_list_level s' = Max (set (0 # map snd (filter (\<lambda>e. fst e \<noteq> k) es)))
       \<and> (map fst es = [k] \<longrightarrow> live_entries s' = Some [] \<and> skip_list_level s' = 0)
       \<and> (k \<notin> fst ` set es \<longrightarrow> s' = s)
       \<and> skip_list_level s' \<le> skip_list_level s
       \<and> (\<forall>j. skip_list_level s' < j \<and> j \<le> max_level s'
              \<longrightarrow> get_forward (heap s') (header s') j = Some None)
       \<and> (\<exists>ls. tower_heights s' = Some ls \<and> skip_list_level s' = Max (set (0 # ls)))
       \<and> (live_nodes s' = Some [] \<longrightarrow> skip_list_level s' = 0)
       \<and> (skip_list_level s' = 0
            \<or> (\<exists>a. get_forward (heap s') (header s') (skip_list_level s') = Some (Some a)))"
proof -
  from run_opt_inv [OF new_SkipListOptimized_inv, of ops ml hk hv] obtain s ns
    where s: "run_opt ops (new_SkipListOptimized ml hk hv) = Some s" "opt_inv s ns" by blast
  let ?ns' = "filter (\<lambda>t. t_key t \<noteq> k) ns"
  let ?es = "map (\<lambda>t. (t_key t, t_lvl t)) ns"
  let ?es' = "filter (\<lambda>e. fst e \<noteq> k) ?es"
  from delete_element_towers [OF s(2), of k] obtain s'
    where s': "delete_element s k = Some s'" "opt_inv s' ?ns'"
      and same: "k \<notin> t_key ` set ns \<longrightarrow> s' = s" by blast
  from s(2) have inv0: "skiplist_inv s ns" by (simp add: opt_inv_def)
  from s'(2) have inv: "skiplist_inv s' ?ns'" by (simp add: opt_inv_def)
  from inv0 have lvl0: "skip_list_level s = max_lvl_of ns" by (simp add: skiplist_inv_def sl_inv_def)
  from inv have lvl: "skip_list_level s' = max_lvl_of ?ns'"
    by (simp add: skiplist_inv_def sl_inv_def)
  have e0: "live_entries s = Some ?es" by (rule live_entries_towers [OF inv0])
  have e1: "live_entries s' = Some ?es'"
    using live_entries_towers [OF inv] by (simp only: entries_without)
  have snd_es: "map snd ?es' = map t_lvl ?ns'" by (simp add: entries_without comp_def)
  have m: "skip_list_level s' = Max (set (0 # map snd ?es'))"
    unfolding snd_es lvl by (simp add: max_lvl_of_def)
  have last: "map fst ?es = [k] \<longrightarrow> live_entries s' = Some [] \<and> skip_list_level s' = 0"
  proof
    assume "map fst ?es = [k]"
    then have "map t_key ns = [k]" by (simp add: comp_def)
    then have "?ns' = []" by (cases ns) auto
    with e1 lvl show "live_entries s' = Some [] \<and> skip_list_level s' = 0"
      by (simp add: entries_without)
  qed
  have fs: "fst ` set ?es = t_key ` set ns" by force
  have le: "skip_list_level s' \<le> skip_list_level s"
    unfolding lvl lvl0 max_lvl_of_le_iff using max_lvl_of_ge [of _ ns] by simp
  have above: "\<forall>j. skip_list_level s' < j \<and> j \<le> max_level s'
              \<longrightarrow> get_forward (heap s') (header s') j = Some None"
    using header_null_above [OF inv] by blast
  have h: "tower_heights s' = Some (map t_lvl ?ns')" by (rule tower_heights_towers [OF inv])
  have 1: "\<exists>ls. tower_heights s' = Some ls \<and> skip_list_level s' = Max (set (0 # ls))"
    using h lvl by (simp add: max_lvl_of_def)
  have 2: "live_nodes s' = Some [] \<longrightarrow> skip_list_level s' = 0"
    using live_nodes_towers [OF inv] lvl by auto
  have 3: "skip_list_level s' = 0
            \<or> (\<exists>a. get_forward (heap s') (header s') (skip_list_level s') = Some (Some a))"
    using top_level_occupied [OF inv] by blast
  from same fs have same': "k \<notin> fst ` set ?es \<longrightarrow> s' = s" by simp
  from s(1) s'(1) e0 e1 m last same' le above 1 2 3 show ?thesis by blast
qed

theorem C9_level_after_delete_witness:
  "Option.bind (run_opt [Insert (10::int) ''x'' 4, Insert 3 ''y'' 0] (new_SkipListOptimized 6 0 ''''))
     (\<lambda>s. map_option (\<lambda>s'. (skip_list_level s, skip_list_level s'))
             (delete_element s 10)) = Some (5, 1)
   \<and> Option.bind (run_opt [Insert (10::int) ''x'' 4, Insert 3 ''y'' 0] (new_SkipListOptimized 6 0 ''''))
     (\<lambda>s. Option.bind (delete_element s 10) live_entries) = Some [(3, 1)]
   \<and> Option.bind (run_opt [Insert (10::int) ''x'' 4, Insert 3 ''y'' 0, Delete 3]
                     (new_SkipListOptimized 6 0 ''''))
     (\<lambda>s. map_option (\<lambda>s'. (skip_list_level s, skip_list_level s'))
             (delete_element s 10)) = Some (5, 0)"
proof -
  let ?ops = "[Insert (10::int) ''x'' 4, Insert 3 ''y'' 0]"
  let ?ops2 = "[Insert (10::int) ''x'' 4, Insert 3 ''y'' 0, Delete 3]"
  let ?init = "new_SkipListOptimized 6 (0::int) ''''"
  have ev: "Option.bind (run_opt ?ops ?init) live_entries = Some [(3, 1), (10, 5)]"
    by code_simp
  have lv: "map_option skip_list_level (run_opt ?ops ?init) = Some 5" by code_simp
  have ev2: "Option.bind (run_opt ?ops2 ?init) live_entries = Some [(10, 5)]"
    by code_simp
  have lv2: "map_option skip_list_level (run_opt ?ops2 ?init) = Some 5" by code_simp
  from C9_level_after_delete [of ?ops 6 0 "''''" 10] obtain s s' es
    where r: "run_opt ?ops ?init = Some s" and d: "delete_element s 10 = Some s'"
      and e: "live_entries s = Some es"
      and e': "live_entries s' = Some (filter (\<lambda>e. fst e \<noteq> 10) es)"
      and m: "skip_list_level s' = Max (set (0 # map snd (filter (\<lambda>e. fst e \<noteq> 10) es)))"
    by blast
  from ev e have es: "es = [(3, 1), (10, 5)]" by (simp only: r Option.bind.simps option.inject)
  from m have l1: "skip_list_level s' = 1" unfolding es by simp
  from e' have en: "live_entries s' = Some [(3, 1)]" unfolding es by simp
  from lv have l0: "skip_list_level s = 5" by (simp only: r option.map option.inject)
  from C9_level_after_delete [of ?ops2 6 0 "''''" 10] obtain t t' fs
    where r2: "run_opt ?ops2 ?init = Some t" and d2: "delete_element t 10 = Some t'"
      and f: "live_entries t = Some fs"
      and z: "map fst fs = [10] \<longrightarrow> live_entries t' = Some [] \<and> skip_list_level t' = 0"
    by blast
  from ev2 f have "fs = [(10, 5)]" by (simp only: r2 Option.bind.simps option.inject)
  with z have l2: "skip_list_level t' = 0" by simp
  from lv2 have l3: "skip_list_level t = 5" by (simp only: r2 option.map option.inject)
  have 1: "Option.bind (run_opt ?ops ?init)
             (\<lambda>s. map_option (\<lambda>s'. (skip_list_level s, skip_list_level s'))
                     (delete_element s 10)) = Some (5, 1)"
    by (simp only: r d Option.bind.simps option.map l0 l1)
  have 2: "Option.bind (run_opt ?ops ?init)
             (\<lambda>s. Option.bind (delete_element s 10) live_entries) = Some [(3, 1)]"
    by (simp only: r d Option.bind.simps en)
  have 3: "Option.bind (run_opt ?ops2 ?init)
             (\<lambda>s. map_option (\<lambda>s'. (skip_list_level s, skip_list_level s'))
                     (delete_element s 10)) = Some (5, 0)"
    by (simp only: r2 d2 Option.bind.simps option.map l3 l2)
  from 1 2 3 show ?thesis by (intro conjI)
qed

section \<open>Heaps with the same links\<close>

lemma same_links_refl: "same_links h h"
  by (simp add: same_links_def)

lemma same_links_trans: "same_links h1 h2 \<Longrightarrow> same_links h2 h3 \<Longrightarrow> same_links h1 h3"
  by (simp add: same_links_def)

lemma same_links_node:
  assumes "same_links h h'" "node_at h a = Some n"
  shows "\<exists>n'. node_at h' a = Some n' \<and> key n' = key n \<and> forward n' = forward n
           \<and> node_level n' = node_level n"
proof -
  from assms have "map_option (\<lambda>n. (key n, forward n, node_level n)) (node_at h' a)
                     = Some (key n, forward n, node_level n)"
    by (simp add: same_links_def)
  then show ?thesis by (cases "node_at h' a") auto
qed

lemma same_links_None:
  assumes "same_links h h'" "node_at h a = None"
  shows "node_at h' a = None"
proof -
  from assms have "map_option (\<lambda>n. (key n, forward n, node_level n)) (node_at h' a) = None"
    by (simp add: same_links_def)
  then show ?thesis by simp
qed

lemma same_links_get_forward: "same_links h h' \<Longrightarrow> get_forward h' a j = get_forward h a j"
proof (cases "node_at h a")
  case None
  assume "same_links h h'"
  from same_links_None [OF this None] None show ?thesis by (simp add: get_forward_def)
next
  case (Some n)
  assume "same_links h h'"
  from same_links_node [OF this Some] Some show ?thesis by (auto simp: get_forward_def)
qed

lemma same_links_get_key: "same_links h h' \<Longrightarrow> get_key h' a = get_key h a"
proof (cases "node_at h a")
  case None
  assume "same_links h h'"
  from same_links_None [OF this None] None show ?thesis by (simp add: get_key_def)
next
  case (Some n)
  assume "same_links h h'"
  from same_links_node [OF this Some] Some show ?thesis by (auto simp: get_key_def)
qed

lemma same_links_tower_ok: "same_links h h' \<Longrightarrow> tower_ok h' t = tower_ok h t"
proof (cases "node_at h (t_addr t)")
  case None
  assume "same_links h h'"
  from same_links_None [OF this None] None show ?thesis by (simp add: tower_ok_def)
next
  case (Some n)
  assume "same_links h h'"
  from same_links_node [OF this Some] Some show ?thesis by (auto simp: tower_ok_def)
qed

lemma same_links_seg: "same_links h h' \<Longrightarrow> seg h' j p as q = seg h j p as q"
  by (rule seg_frame) (simp add: same_links_get_forward)

lemma same_links_sl_inv:
  assumes sl: "same_links h h'"
  shows "sl_inv ml lvl hdr h' ns = sl_inv ml lvl hdr h ns"
proof -
  have "(case node_at h' hdr of None \<Rightarrow> False | Some n \<Rightarrow> length (forward n) = ml + 1)
      = (case node_at h hdr of None \<Rightarrow> False | Some n \<Rightarrow> length (forward n) = ml + 1)"
  proof (cases "node_at h hdr")
    case None
    from same_links_None [OF sl None] None show ?thesis by simp
  next
    case (Some n)
    from same_links_node [OF sl Some] Some show ?thesis by auto
  qed
  moreover have "tower_ok h' = tower_ok h"
    by (rule ext) (rule same_links_tower_ok [OF sl])
  moreover have "\<And>j p as q. seg h' j p as q = seg h j p as q"
    by (rule same_links_seg [OF sl])
  ultimately show ?thesis by (simp only: sl_inv_def)
qed

section \<open>Rewriting a version chain\<close>

lemma on_versions_Some_iff:
  "on_versions h a f = Some h' \<longleftrightarrow>
     (\<exists>n. node_at h a = Some n \<and> h' = h[a := Some (n\<lparr>version_head := f (version_head n)\<rparr>)])"
  by (cases "node_at h a") (auto simp: on_versions_def)

lemma on_versions_node_at:
  assumes "on_versions h a f = Some h'"
  shows "node_at h' b =
           (if b = a then map_option (\<lambda>n. n\<lparr>version_head := f (version_head n)\<rparr>) (node_at h a)
            else node_at h b)"
proof -
  from assms obtain n where n: "node_at h a = Some n"
    "h' = h[a := Some (n\<lparr>version_head := f (version_head n)\<rparr>)]"
    by (auto simp: on_versions_Some_iff)
  then have "a < length h" by (simp add: node_at_Some_iff)
  with n show ?thesis by (simp add: node_at_update)
qed

lemma on_versions_same_links: "on_versions h a f = Some h' \<Longrightarrow> same_links h h'"
  unfolding same_links_def
  by (auto simp: on_versions_node_at on_versions_Some_iff)

lemma on_versions_length: "on_versions h a f = Some h' \<Longrightarrow> length h' = length h"
  by (auto simp: on_versions_Some_iff)

lemma on_versions_allocated:
  assumes "on_versions h a f = Some h'" "\<forall>b < length h. h ! b \<noteq> None"
  shows "\<forall>b < length h'. h' ! b \<noteq> None"
proof -
  from assms(1) obtain n where n: "h' = h[a := Some (n\<lparr>version_head := f (version_head n)\<rparr>)]"
    and a: "a < length h"
    by (auto simp: on_versions_Some_iff node_at_Some_iff)
  show ?thesis unfolding n using assms(2) a by (auto simp: nth_list_update)
qed

lemma on_versions_defined:
  "a < length h \<Longrightarrow> h ! a \<noteq> None \<Longrightarrow> \<exists>h'. on_versions h a f = Some h'"
  by (auto simp: on_versions_def node_at_def)

section \<open>Looking a key up\<close>

lemma inv_sl:
  "skiplist_inv s ns \<Longrightarrow> sl_inv (max_level s) (skip_list_level s) (header s) (heap s) ns"
  by (simp add: skiplist_inv_def)

lemma seek_position:
  assumes inv: "sl_inv ml lvl hdr h ns"
  shows "seek h k lvl hdr = Some (pred_at hdr k ns 0)"
  by (rule seek_level [OF inv inv_level_le [OF inv]]) simp

lemma find_node_present:
  assumes inv: "skiplist_inv s ns" and t: "t \<in> set ns" "t_key t = k"
  shows "find_node s k = Some (Some (t_addr t))"
proof -
  note sl = inv_sl [OF inv]
  from t have kin: "k \<in> t_key ` set ns" by auto
  from towers_from_present [OF inv_sorted [OF sl] t] obtain rest
    where rest: "towers_from k ns = t # rest" by blast
  from candidate [OF sl, of k] rest
  have c: "get_forward (heap s) (pred_at (header s) k ns 0) 0 = Some (Some (t_addr t))" by simp
  from key_matches_candidate [OF sl, of k] rest kin
  have m: "key_matches (heap s) (Some (t_addr t)) k = Some True" by simp
  show ?thesis unfolding find_node_def seek_position [OF sl] by (simp add: c m)
qed

lemma find_node_absent:
  assumes inv: "skiplist_inv s ns" and "k \<notin> t_key ` set ns"
  shows "find_node s k = Some None"
proof -
  note sl = inv_sl [OF inv]
  from key_matches_candidate [OF sl, of k] assms(2)
  have m: "key_matches (heap s) (first_of (map t_addr (towers_from k ns))) k = Some False" by simp
  show ?thesis unfolding find_node_def seek_position [OF sl] by (simp add: candidate [OF sl] m)
qed

lemma key_versions_present:
  assumes inv: "skiplist_inv s ns" and t: "t \<in> set ns" "t_key t = k"
    and n: "node_at (heap s) (t_addr t) = Some n"
  shows "key_versions s k = Some (version_head n)"
  by (simp add: key_versions_def find_node_present [OF inv t] versions_at_def n)

lemma key_versions_absent:
  assumes inv: "skiplist_inv s ns" and "k \<notin> t_key ` set ns"
  shows "key_versions s k = Some []"
  by (simp add: key_versions_def find_node_absent [OF assms])

lemma key_versions_defined:
  assumes inv: "skiplist_inv s ns"
  shows "\<exists>ch. key_versions s k = Some ch"
proof (cases "k \<in> t_key ` set ns")
  case False
  from key_versions_absent [OF inv False] show ?thesis by blast
next
  case True
  then obtain t where t: "t \<in> set ns" "t_key t = k" by auto
  from inv_tower [OF inv_sl [OF inv] t(1)] obtain n where "node_at (heap s) (t_addr t) = Some n"
    by blast
  from key_versions_present [OF inv t this] show ?thesis by blast
qed

text \<open>A read returns the value of the first visible version of the chain of the key.\<close>

lemma mvcc_search_element_versions:
  assumes inv: "skiplist_inv s ns" and act: "is_active t"
  shows "\<exists>ch. key_versions s k = Some ch
           \<and> mvcc_search_element s (Some t) k =
               Some (case get_visible_version ch (txn_id t) of
                       Some ver \<Rightarrow> (True, Some (val ver))
                     | None \<Rightarrow> (False, None))"
proof (cases "k \<in> t_key ` set ns")
  case False
  note sl = inv_sl [OF inv]
  from key_matches_candidate [OF sl, of k] False
  have m: "key_matches (heap s) (first_of (map t_addr (towers_from k ns))) k = Some False" by simp
  have "mvcc_search_element s (Some t) k = Some (False, None)"
    unfolding mvcc_search_element_def seek_position [OF sl]
    by (simp add: act candidate [OF sl] m)
  with key_versions_absent [OF inv False] show ?thesis by simp
next
  case True
  note sl = inv_sl [OF inv]
  from True obtain tw where tw: "tw \<in> set ns" "t_key tw = k" by auto
  from inv_tower [OF sl tw(1)] obtain n where n: "node_at (heap s) (t_addr tw) = Some n"
    by blast
  from towers_from_present [OF inv_sorted [OF sl] tw] obtain rest
    where rest: "towers_from k ns = tw # rest" by blast
  from candidate [OF sl, of k] rest
  have c: "get_forward (heap s) (pred_at (header s) k ns 0) 0 = Some (Some (t_addr tw))" by simp
  from key_matches_candidate [OF sl, of k] rest True
  have m: "key_matches (heap s) (Some (t_addr tw)) k = Some True" by simp
  have "mvcc_search_element s (Some t) k =
               Some (case get_visible_version (version_head n) (txn_id t) of
                       Some ver \<Rightarrow> (True, Some (val ver))
                     | None \<Rightarrow> (False, None))"
    unfolding mvcc_search_element_def seek_position [OF sl]
    by (simp add: act c m n split: option.splits)
  with key_versions_present [OF inv tw n] show ?thesis by simp
qed

section \<open>Writing under MVCC\<close>

lemma on_versions_fresh:
  "on_versions (h @ [Some n]) (length h) f = Some (h @ [Some (n\<lparr>version_head := f (version_head n)\<rparr>)])"
  by (simp add: on_versions_def node_at_append)

lemma data_version_head:
  "n'\<lparr>forward := []\<rparr> = n\<lparr>forward := []\<rparr> \<Longrightarrow> version_head n' = version_head n"
  by (drule arg_cong [where f = version_head]) simp

lemma data_val_opt: "n'\<lparr>forward := []\<rparr> = n\<lparr>forward := []\<rparr> \<Longrightarrow> val_opt n' = val_opt n"
  by (drule arg_cong [where f = val_opt]) simp

lemma same_data_allocated:
  assumes "same_data h h'" "\<forall>b < length h. h ! b \<noteq> None"
  shows "\<forall>b < length h'. h' ! b \<noteq> None"
proof (intro allI impI)
  fix b assume "b < length h'"
  with assms(1) have b: "b < length h" by (simp add: same_data_length)
  with assms(2) obtain n where "h ! b = Some n" by auto
  from same_data_nth [OF assms(1) b this] show "h' ! b \<noteq> None" by auto
qed

lemma mvcc_insert_existing:
  assumes inv: "skiplist_inv s ns" and tw: "tw \<in> set ns" "t_key tw = k" and act: "is_active t"
    and n: "node_at (heap s) (t_addr tw) = Some n"
  shows "mvcc_insert_element s (Some t) k v coins =
           Some (0, s\<lparr>heap := (heap s)[t_addr tw :=
                                Some (n\<lparr>version_head := Version v (txn_id t) # version_head n\<rparr>)],
                       total_versions := total_versions s + 1\<rparr>,
                 Some (add_modified_node t (t_addr tw)))"
proof -
  note sl = inv_sl [OF inv]
  from tw have kin: "k \<in> t_key ` set ns" by auto
  from find_position [OF sl, of k] kin obtain update where
    su: "seek_update (heap s) k (skip_list_level s) (header s) (replicate (max_level s + 1) None)
           = Some (pred_at (header s) k ns 0, update)" by auto
  from towers_from_present [OF inv_sorted [OF sl] tw] obtain rest
    where rest: "towers_from k ns = tw # rest" by blast
  from candidate [OF sl, of k] rest
  have c: "get_forward (heap s) (pred_at (header s) k ns 0) 0 = Some (Some (t_addr tw))" by simp
  from key_matches_candidate [OF sl, of k] rest kin
  have m: "key_matches (heap s) (Some (t_addr tw)) k = Some True" by simp
  show ?thesis
    unfolding mvcc_insert_element_def su
    by (simp add: act c m on_versions_def n add_version_def)
qed

lemma mvcc_insert_new:
  assumes inv: "skiplist_inv s ns" and fresh: "k \<notin> t_key ` set ns" and act: "is_active t"
  shows "\<exists>h'. mvcc_insert_element s (Some t) k v coins =
            Some (0, s\<lparr>skip_list_level := max (skip_list_level s) (get_random_level (max_level s) coins),
                        heap := h',
                        total_versions := total_versions s + 1\<rparr>,
                  Some (add_modified_node t (length (heap s))))
          \<and> same_data (heap s @ [Some ((new_NodeMVCC k (get_random_level (max_level s) coins))
                                         \<lparr>version_head := [Version v (txn_id t)]\<rparr>)]) h'
          \<and> sl_inv (max_level s) (max (skip_list_level s) (get_random_level (max_level s) coins))
               (header s) h'
               (towers_before k ns
                  @ (length (heap s), k, get_random_level (max_level s) coins) # towers_from k ns)"
proof -
  let ?rl = "get_random_level (max_level s) coins"
  let ?n0 = "(new_NodeMVCC k ?rl)\<lparr>version_head := [Version v (txn_id t)]\<rparr>"
  note sl = inv_sl [OF inv]
  from find_position [OF sl, of k] fresh obtain update where
    su: "seek_update (heap s) k (skip_list_level s) (header s) (replicate (max_level s + 1) None)
           = Some (pred_at (header s) k ns 0, update)"
    and len: "length update = max_level s + 1"
    and low: "\<And>i. i \<le> skip_list_level s \<Longrightarrow> deref update i = Some (pred_at (header s) k ns i)"
    and cand: "get_forward (heap s) (pred_at (header s) k ns 0) 0
                 = Some (first_of (map t_addr (towers_from k ns)))"
    and km: "key_matches (heap s) (first_of (map t_addr (towers_from k ns))) k = Some False"
    by auto
  have rl: "?rl \<le> max_level s" by (rule get_random_level_le)
  from raise_preds [OF sl len low rl] obtain update1 where
    ru: "(if ?rl > skip_list_level s
          then map_option (\<lambda>u. (u, ?rl)) (raise_update update (header s) (skip_list_level s) ?rl)
          else Some (update, skip_list_level s)) = Some (update1, max (skip_list_level s) ?rl)"
    and upd: "\<And>i. i \<le> ?rl \<Longrightarrow> deref update1 i = Some (pred_at (header s) k ns i)"
    by blast
  have n0: "length (forward ?n0) = ?rl + 1" "key ?n0 = k" "node_level ?n0 = ?rl"
    by (simp_all add: new_NodeMVCC_def)
  from splice_new_node [OF sl rl n0 fresh upd] obtain h' where
    sp: "splice_node update1 (length (heap s)) ?rl (heap s @ [Some ?n0]) = Some h'"
    and sd: "same_data (heap s @ [Some ?n0]) h'"
    and inv': "sl_inv (max_level s) (max (skip_list_level s) ?rl) (header s) h'
                 (towers_before k ns @ (length (heap s), k, ?rl) # towers_from k ns)"
    by blast
  have ov: "on_versions (heap s @ [Some (new_NodeMVCC k ?rl)]) (length (heap s))
              (\<lambda>ch. add_version ch v (txn_id t)) = Some (heap s @ [Some ?n0])"
    by (simp add: on_versions_fresh add_version_def new_NodeMVCC_def)
  have "mvcc_insert_element s (Some t) k v coins =
            Some (0, s\<lparr>skip_list_level := max (skip_list_level s) ?rl, heap := h',
                        total_versions := total_versions s + 1\<rparr>,
                  Some (add_modified_node t (length (heap s))))"
  proof (cases "?rl > skip_list_level s")
    case True
    with ru have "raise_update update (header s) (skip_list_level s) ?rl = Some update1"
      by auto
    with True show ?thesis
      unfolding mvcc_insert_element_def su
      by (simp add: act cand km sp ov Let_def max_def)
  next
    case False
    with ru have "update1 = update" by simp
    with False sp show ?thesis
      unfolding mvcc_insert_element_def su
      by (simp add: act cand km ov Let_def max_def)
  qed
  with sd inv' show ?thesis by blast
qed

text \<open>
  Every write of an active transaction returns 0, prepends one version to the chain
  of the key and appends the node of the key to \<open>modified_nodes\<close>.
\<close>

lemma mvcc_insert_versions:
  assumes inv: "skiplist_inv s ns" and act: "is_active t"
  shows "\<exists>s' a ns' ch. mvcc_insert_element s (Some t) k v coins
                          = Some (0, s', Some (add_modified_node t a))
          \<and> skiplist_inv s' ns'
          \<and> find_node s' k = Some (Some a)
          \<and> (find_node s k = Some None \<or> find_node s k = Some (Some a))
          \<and> key_versions s k = Some ch
          \<and> key_versions s' k = Some (Version v (txn_id t) # ch)
          \<and> a < length (heap s') \<and> length (heap s) \<le> length (heap s')
          \<and> ((\<forall>b < length (heap s). heap s ! b \<noteq> None)
                \<longrightarrow> (\<forall>b < length (heap s'). heap s' ! b \<noteq> None))
          \<and> next_txn_id s' = next_txn_id s \<and> active_transactions s' = active_transactions s"
proof (cases "k \<in> t_key ` set ns")
  case True
  note sl = inv_sl [OF inv]
  from True obtain tw where tw: "tw \<in> set ns" "t_key tw = k" by auto
  from inv_tower [OF sl tw(1)] obtain n where n: "node_at (heap s) (t_addr tw) = Some n"
    by blast
  let ?n' = "n\<lparr>version_head := Version v (txn_id t) # version_head n\<rparr>"
  let ?h' = "(heap s)[t_addr tw := Some ?n']"
  let ?s' = "s\<lparr>heap := ?h', total_versions := total_versions s + 1\<rparr>"
  have ov: "on_versions (heap s) (t_addr tw) (\<lambda>ch. Version v (txn_id t) # ch) = Some ?h'"
    by (simp add: on_versions_def n)
  have "sl_inv (max_level s) (skip_list_level s) (header s) ?h' ns"
    using sl by (simp only: same_links_sl_inv [OF on_versions_same_links [OF ov]])
  then have inv': "skiplist_inv ?s' ns" by (simp add: skiplist_inv_def)
  from n have a: "t_addr tw < length (heap s)" by (simp add: node_at_Some_iff)
  then have n': "node_at (heap ?s') (t_addr tw) = Some ?n'" by (simp add: node_at_def)
  have 1: "key_versions s k = Some (version_head n)" by (rule key_versions_present [OF inv tw n])
  have 2: "key_versions ?s' k = Some (Version v (txn_id t) # version_head n)"
    using key_versions_present [OF inv' tw n'] by simp
  have 3: "find_node ?s' k = Some (Some (t_addr tw))" by (rule find_node_present [OF inv' tw])
  have 4: "(\<forall>b < length (heap s). heap s ! b \<noteq> None)
             \<longrightarrow> (\<forall>b < length (heap ?s'). heap ?s' ! b \<noteq> None)"
    using on_versions_allocated [OF ov] by simp
  have 5: "find_node s k = Some (Some (t_addr tw))" by (rule find_node_present [OF inv tw])
  from mvcc_insert_existing [OF inv tw act n, of v coins] inv' 1 2 3 4 5 a show ?thesis
    by (intro exI [of _ ?s'] exI [of _ "t_addr tw"] exI [of _ ns] exI [of _ "version_head n"]) simp
next
  case False
  let ?rl = "get_random_level (max_level s) coins"
  let ?n0 = "(new_NodeMVCC k ?rl)\<lparr>version_head := [Version v (txn_id t)]\<rparr>"
  let ?a = "length (heap s)"
  let ?ns' = "towers_before k ns @ (?a, k, ?rl) # towers_from k ns"
  from mvcc_insert_new [OF inv False act, of v coins] obtain h' where
    ins: "mvcc_insert_element s (Some t) k v coins =
            Some (0, s\<lparr>skip_list_level := max (skip_list_level s) ?rl, heap := h',
                        total_versions := total_versions s + 1\<rparr>,
                  Some (add_modified_node t ?a))"
    and sd: "same_data (heap s @ [Some ?n0]) h'"
    and sl': "sl_inv (max_level s) (max (skip_list_level s) ?rl) (header s) h' ?ns'"
    by blast
  let ?s' = "s\<lparr>skip_list_level := max (skip_list_level s) ?rl, heap := h',
                total_versions := total_versions s + 1\<rparr>"
  from sl' have inv': "skiplist_inv ?s' ?ns'" by (simp add: skiplist_inv_def)
  have tw: "(?a, k, ?rl) \<in> set ?ns'" "t_key (?a, k, ?rl) = k" by (simp_all add: t_key_def)
  have "node_at (heap s @ [Some ?n0]) ?a = Some ?n0" by (simp add: node_at_append)
  from same_data_node_at [OF sd this] obtain n' where n': "node_at h' ?a = Some n'"
    "n'\<lparr>forward := []\<rparr> = ?n0\<lparr>forward := []\<rparr>" by blast
  from n'(2) have "version_head n' = version_head ?n0" by (rule data_version_head)
  then have vh: "version_head n' = [Version v (txn_id t)]" by simp
  from n'(1) have n'': "node_at (heap ?s') (t_addr (?a, k, ?rl)) = Some n'"
    by (simp add: t_addr_def)
  have 1: "key_versions s k = Some []" by (rule key_versions_absent [OF inv False])
  have 2: "key_versions ?s' k = Some [Version v (txn_id t)]"
    using key_versions_present [OF inv' tw n''] vh by simp
  have 3: "find_node ?s' k = Some (Some ?a)"
    using find_node_present [OF inv' tw] by (simp add: t_addr_def)
  have len: "length h' = ?a + 1" using same_data_length [OF sd] by simp
  have 4: "(\<forall>b < length (heap s). heap s ! b \<noteq> None)
             \<longrightarrow> (\<forall>b < length (heap ?s'). heap ?s' ! b \<noteq> None)"
  proof
    assume "\<forall>b < length (heap s). heap s ! b \<noteq> None"
    then have "\<forall>b < length (heap s @ [Some ?n0]). (heap s @ [Some ?n0]) ! b \<noteq> None"
      by (auto simp: nth_append)
    from same_data_allocated [OF sd this] show "\<forall>b < length (heap ?s'). heap ?s' ! b \<noteq> None"
      by simp
  qed
  have 5: "find_node s k = Some None" by (rule find_node_absent [OF inv False])
  from ins inv' 1 2 3 4 5 len show ?thesis
    by (intro exI [of _ ?s'] exI [of _ ?a] exI [of _ ?ns'] exI [of _ "[]"]) simp
qed

section \<open>Commit, delete and garbage collection\<close>

lemma commit_version_idem [simp]:
  "commit_version (commit_version c tid) tid = commit_version c tid"
  by (induction c) auto

lemma commit_nodes_result:
  "(\<And>a. a \<in> set as \<Longrightarrow> a < length h \<and> h ! a \<noteq> None) \<Longrightarrow>
     \<exists>h'. commit_nodes as tid h = Some h' \<and> same_links h h' \<and> length h' = length h
          \<and> ((\<forall>b < length h. h ! b \<noteq> None) \<longrightarrow> (\<forall>b < length h'. h' ! b \<noteq> None))
          \<and> (\<forall>b. map_option version_head (node_at h' b)
                   = map_option (\<lambda>n. if b \<in> set as then commit_version (version_head n) tid
                                       else version_head n) (node_at h b))"
proof (induction as arbitrary: h)
  case Nil
  then show ?case by (simp add: same_links_refl option.map_ident)
next
  case (Cons a as)
  from Cons.prems [of a] have a: "a < length h" "h ! a \<noteq> None" by simp_all
  from on_versions_defined [OF a] obtain h1
    where h1: "on_versions h a (\<lambda>c. commit_version c tid) = Some h1" by blast
  note len1 = on_versions_length [OF h1]
  have al1: "b < length h1 \<and> h1 ! b \<noteq> None" if "b \<in> set as" for b
  proof -
    from Cons.prems [of b] that have b: "b < length h" "h ! b \<noteq> None" by simp_all
    from on_versions_node_at [OF h1, of b] b have "node_at h1 b \<noteq> None"
      by (auto simp: node_at_def)
    with b len1 show ?thesis by (simp add: node_at_def)
  qed
  from Cons.IH [OF al1] obtain h' where h': "commit_nodes as tid h1 = Some h'"
    and sl: "same_links h1 h'" and len: "length h' = length h1"
    and al: "(\<forall>b < length h1. h1 ! b \<noteq> None) \<longrightarrow> (\<forall>b < length h'. h' ! b \<noteq> None)"
    and vh: "\<And>b. map_option version_head (node_at h' b)
                   = map_option (\<lambda>n. if b \<in> set as then commit_version (version_head n) tid
                                       else version_head n) (node_at h1 b)"
    by blast
  have 1: "commit_nodes (a # as) tid h = Some h'" using h1 h' by simp
  have 2: "same_links h h'" using on_versions_same_links [OF h1] sl by (rule same_links_trans)
  have 3: "length h' = length h" using len len1 by simp
  have 4: "(\<forall>b < length h. h ! b \<noteq> None) \<longrightarrow> (\<forall>b < length h'. h' ! b \<noteq> None)"
    using al on_versions_allocated [OF h1] by blast
  have 5: "map_option version_head (node_at h' b)
             = map_option (\<lambda>n. if b \<in> set (a # as) then commit_version (version_head n) tid
                                 else version_head n) (node_at h b)" for b
    unfolding vh on_versions_node_at [OF h1]
    by (cases "node_at h a"; cases "node_at h b") auto
  from 1 2 3 4 5 show ?case by blast
qed

lemma gc_nodes_seg:
  "seg h 0 p as None \<Longrightarrow>
     \<exists>h'. gc_nodes h p m = Some h' \<and> same_links h h' \<and> length h' = length h
          \<and> ((\<forall>b < length h. h ! b \<noteq> None) \<longrightarrow> (\<forall>b < length h'. h' ! b \<noteq> None))"
proof (induction as arbitrary: h p)
  case Nil
  then show ?case by (subst gc_nodes.simps) (simp add: same_links_refl)
next
  case (Cons a as)
  from Cons.prems obtain r where r: "p = Some a" "get_forward h a 0 = Some r" "seg h 0 r as None"
    by auto
  from r(2) obtain n where n: "node_at h a = Some n" by (auto simp: get_forward_Some_iff)
  then obtain h1 where h1: "on_versions h a (\<lambda>ch. gc_versions ch m) = Some h1"
    by (simp add: on_versions_def)
  note sl1 = on_versions_same_links [OF h1]
  from r(2) have gf: "get_forward h1 a 0 = Some r" by (simp add: same_links_get_forward [OF sl1])
  from r(3) have "seg h1 0 r as None" by (simp add: same_links_seg [OF sl1])
  from Cons.IH [OF this] obtain h' where h': "gc_nodes h1 r m = Some h'"
    and sl: "same_links h1 h'" and len: "length h' = length h1"
    and al: "(\<forall>b < length h1. h1 ! b \<noteq> None) \<longrightarrow> (\<forall>b < length h'. h' ! b \<noteq> None)"
    by blast
  have 1: "gc_nodes h p m = Some h'" using r(1) h1 gf h' by (subst gc_nodes.simps) simp
  have 2: "same_links h h'" using sl1 sl by (rule same_links_trans)
  have 3: "length h' = length h" using len on_versions_length [OF h1] by simp
  have 4: "(\<forall>b < length h. h ! b \<noteq> None) \<longrightarrow> (\<forall>b < length h'. h' ! b \<noteq> None)"
    using al on_versions_allocated [OF h1] by blast
  from 1 2 3 4 show ?case by blast
qed

lemma gc_inv:
  assumes inv: "skiplist_inv s ns"
  shows "\<exists>s'. gc s = Some s' \<and> skiplist_inv s' ns \<and> length (heap s') = length (heap s)
          \<and> ((\<forall>b < length (heap s). heap s ! b \<noteq> None)
                \<longrightarrow> (\<forall>b < length (heap s'). heap s' ! b \<noteq> None))"
proof -
  note sl = inv_sl [OF inv]
  have "seg (heap s) 0 (Some (header s)) (header s # lev 0 ns) None" by (rule inv_seg [OF sl]) simp
  then obtain r where r: "get_forward (heap s) (header s) 0 = Some r"
    "seg (heap s) 0 r (map t_addr ns) None" by auto
  from gc_nodes_seg [OF r(2), of "get_min_active_txn_id s"] obtain h'
    where h': "gc_nodes (heap s) r (get_min_active_txn_id s) = Some h'"
      and l: "same_links (heap s) h'" and len: "length h' = length (heap s)"
      and al: "(\<forall>b < length (heap s). heap s ! b \<noteq> None) \<longrightarrow> (\<forall>b < length h'. h' ! b \<noteq> None)"
    by blast
  have "sl_inv (max_level s) (skip_list_level s) (header s) h' ns"
    using sl by (simp only: same_links_sl_inv [OF l])
  then have "skiplist_inv (s\<lparr>heap := h'\<rparr>) ns" by (simp add: skiplist_inv_def)
  moreover have "gc s = Some (s\<lparr>heap := h'\<rparr>)" using r(1) h' by (simp add: gc_def)
  ultimately show ?thesis using len al by (intro exI [of _ "s\<lparr>heap := h'\<rparr>"]) simp
qed

lemma mvcc_delete_inv:
  assumes inv: "skiplist_inv s ns"
  shows "\<exists>s'. mvcc_delete_element s txn k = Some s' \<and> skiplist_inv s' ns
          \<and> length (heap s') = length (heap s)
          \<and> ((\<forall>b < length (heap s). heap s ! b \<noteq> None)
                \<longrightarrow> (\<forall>b < length (heap s'). heap s' ! b \<noteq> None))"
proof (cases "txn = None \<or> (\<exists>t. txn = Some t \<and> \<not> is_active t)")
  case True
  then have "mvcc_delete_element s txn k = Some s"
    by (auto simp: mvcc_delete_element_def)
  with inv show ?thesis by simp
next
  case False
  then obtain t where t: "txn = Some t" "is_active t" by (cases txn) auto
  note sl = inv_sl [OF inv]
  show ?thesis
  proof (cases "k \<in> t_key ` set ns")
    case False
    from key_matches_candidate [OF sl, of k] False
    have m: "key_matches (heap s) (first_of (map t_addr (towers_from k ns))) k = Some False"
      by simp
    have "mvcc_delete_element s txn k = Some s"
      unfolding mvcc_delete_element_def seek_position [OF sl] t(1)
      by (simp add: t(2) candidate [OF sl] m)
    with inv show ?thesis by simp
  next
    case True
    then obtain tw where tw: "tw \<in> set ns" "t_key tw = k" by auto
    from inv_tower [OF sl tw(1)] obtain n where n: "node_at (heap s) (t_addr tw) = Some n"
      by blast
    from towers_from_present [OF inv_sorted [OF sl] tw] obtain rest
      where rest: "towers_from k ns = tw # rest" by blast
    from candidate [OF sl, of k] rest
    have c: "get_forward (heap s) (pred_at (header s) k ns 0) 0 = Some (Some (t_addr tw))"
      by simp
    from key_matches_candidate [OF sl, of k] rest True
    have m: "key_matches (heap s) (Some (t_addr tw)) k = Some True" by simp
    from n obtain h' where h': "on_versions (heap s) (t_addr tw) (\<lambda>ch. mark_deleted ch (txn_id t))
                                  = Some h'"
      by (simp add: on_versions_def)
    have d: "mvcc_delete_element s txn k = Some (s\<lparr>heap := h'\<rparr>)"
      unfolding mvcc_delete_element_def seek_position [OF sl] t(1)
      by (simp add: t(2) c m h')
    have "sl_inv (max_level s) (skip_list_level s) (header s) h' ns"
      using sl by (simp only: same_links_sl_inv [OF on_versions_same_links [OF h']])
    then have "skiplist_inv (s\<lparr>heap := h'\<rparr>) ns" by (simp add: skiplist_inv_def)
    with d on_versions_length [OF h'] on_versions_allocated [OF h'] show ?thesis
      by (intro exI [of _ "s\<lparr>heap := h'\<rparr>"]) simp
  qed
qed

section \<open>Clients of the MVCC list\<close>

lemma fresh_header_seg:
  assumes "length fwd = ml + 1" "\<forall>i < ml + 1. fwd ! i = None" "forward n = fwd" "j \<le> ml"
  shows "seg [Some n] j (Some 0) (0 # lev j []) None"
  using assms by (simp add: get_forward_def node_at_def slot_def)

lemma fresh_sl_inv:
  assumes "forward n = replicate (ml + 1) None"
  shows "sl_inv ml 0 0 [Some n] []"
  unfolding sl_inv_def
proof (intro conjI allI impI)
  show "case node_at [Some n] 0 of None \<Rightarrow> False | Some n \<Rightarrow> length (forward n) = ml + 1"
    using assms by (simp add: node_at_def)
  fix j assume "j \<le> ml"
  then show "seg [Some n] j (Some 0) (0 # lev j []) None"
    by (intro fresh_header_seg [where fwd = "replicate (ml + 1) None" and ml = ml])
       (simp_all add: assms del: replicate_Suc)
qed simp_all

lemma new_SkipListMVCC_inv: "mvcc_inv (new_SkipListMVCC ml hk, []) []"
proof -
  have "sl_inv ml 0 0 [Some (new_NodeMVCC hk ml)] []"
    by (rule fresh_sl_inv) (simp add: new_NodeMVCC_def)
  then show ?thesis
    by (simp add: mvcc_inv_def skiplist_inv_def new_SkipListMVCC_def)
qed

lemma commit_active:
  assumes inv: "skiplist_inv s ns" and act: "is_active t"
    and mn: "\<And>a. a \<in> set (modified_nodes t) \<Longrightarrow> a < length (heap s) \<and> heap s ! a \<noteq> None"
  shows "\<exists>h'. commit_transaction s (Some t) =
            Some (True,
                  s\<lparr>heap := h',
                    active_transactions := removeAll (txn_id t) (active_transactions s),
                    total_commits := total_commits s + 1\<rparr>,
                  Some (t\<lparr>state := COMMITTED\<rparr>))
          \<and> same_links (heap s) h' \<and> length h' = length (heap s)
          \<and> ((\<forall>b < length (heap s). heap s ! b \<noteq> None) \<longrightarrow> (\<forall>b < length h'. h' ! b \<noteq> None))
          \<and> (\<forall>b. map_option version_head (node_at h' b)
                   = map_option (\<lambda>n. if b \<in> set (modified_nodes t)
                                       then commit_version (version_head n) (txn_id t)
                                       else version_head n) (node_at (heap s) b))"
proof -
  from commit_nodes_result [OF mn, of "modified_nodes t" "txn_id t"] obtain h'
    where h': "commit_nodes (modified_nodes t) (txn_id t) (heap s) = Some h'"
      and rest: "same_links (heap s) h'" "length h' = length (heap s)"
        "(\<forall>b < length (heap s). heap s ! b \<noteq> None) \<longrightarrow> (\<forall>b < length h'. h' ! b \<noteq> None)"
        "\<forall>b. map_option version_head (node_at h' b)
                   = map_option (\<lambda>n. if b \<in> set (modified_nodes t)
                                       then commit_version (version_head n) (txn_id t)
                                       else version_head n) (node_at (heap s) b)"
    by blast
  have "commit_transaction s (Some t) =
            Some (True,
                  s\<lparr>heap := h',
                    active_transactions := removeAll (txn_id t) (active_transactions s),
                    total_commits := total_commits s + 1\<rparr>,
                  Some (t\<lparr>state := COMMITTED\<rparr>))"
    by (simp add: commit_transaction_def act h')
  with rest show ?thesis by blast
qed

lemma handle_cases:
  obtains (null) "handle txns i = None" "i \<ge> length txns"
  | (live) t where "handle txns i = Some t" "i < length txns" "t = txns ! i"
  by (cases "i < length txns") (auto simp: handle_def)

lemma store_same: "handle txns i = txn \<Longrightarrow> store txns i txn = txns"
  by (auto simp: handle_def store_def split: if_splits)

lemma mvcc_inv_I:
  assumes "skiplist_inv s ns" "\<forall>a < length (heap s). heap s ! a \<noteq> None"
    "\<And>t a. t \<in> set txns \<Longrightarrow> a \<in> set (modified_nodes t) \<Longrightarrow> a < length (heap s)"
  shows "mvcc_inv (s, txns) ns"
  using assms by (simp add: mvcc_inv_def)

lemma mvcc_inv_D:
  assumes "mvcc_inv (s, txns) ns"
  shows "skiplist_inv s ns" "\<forall>a < length (heap s). heap s ! a \<noteq> None"
    "\<And>t a. t \<in> set txns \<Longrightarrow> a \<in> set (modified_nodes t) \<Longrightarrow> a < length (heap s)"
  using assms by (simp_all add: mvcc_inv_def)

lemma mvcc_step_inv:
  assumes mi: "mvcc_inv (s, txns) ns"
  shows "\<exists>c' ns'. mvcc_step x (s, txns) = Some c' \<and> mvcc_inv c' ns'"
proof -
  note inv = mvcc_inv_D(1) [OF mi] and al = mvcc_inv_D(2) [OF mi] and mn = mvcc_inv_D(3) [OF mi]
  show ?thesis
  proof (cases x)
    case Begin
    have "mvcc_inv (snd (begin_transaction s), txns @ [fst (begin_transaction s)]) ns"
    proof (rule mvcc_inv_I)
      show "skiplist_inv (snd (begin_transaction s)) ns"
        using inv by (simp add: begin_transaction_def Let_def skiplist_inv_def)
      show "\<forall>a < length (heap (snd (begin_transaction s))). heap (snd (begin_transaction s)) ! a \<noteq> None"
        using al by (simp add: begin_transaction_def Let_def)
      show "\<And>t a. t \<in> set (txns @ [fst (begin_transaction s)]) \<Longrightarrow> a \<in> set (modified_nodes t)
              \<Longrightarrow> a < length (heap (snd (begin_transaction s)))"
        using mn by (auto simp: begin_transaction_def Let_def new_Transaction_def)
    qed
    with Begin show ?thesis by (auto simp: case_prod_beta)
  next
    case (Commit i)
    show ?thesis
    proof (cases rule: handle_cases [of txns i])
      case null
      with Commit mi show ?thesis by (auto simp: commit_transaction_def store_def)
    next
      case (live t)
      show ?thesis
      proof (cases "is_active t")
        case False
        with live Commit mi show ?thesis
          by (auto simp: commit_transaction_def store_same)
      next
        case True
        from live have tin: "t \<in> set txns" by simp
        have v: "a < length (heap s) \<and> heap s ! a \<noteq> None" if "a \<in> set (modified_nodes t)" for a
          using mn [OF tin that] al by simp
        from commit_active [OF inv True v] obtain h' where
          c: "commit_transaction s (Some t) =
            Some (True,
                  s\<lparr>heap := h',
                    active_transactions := removeAll (txn_id t) (active_transactions s),
                    total_commits := total_commits s + 1\<rparr>,
                  Some (t\<lparr>state := COMMITTED\<rparr>))"
          and l: "same_links (heap s) h'" and len: "length h' = length (heap s)"
          and al': "(\<forall>b < length (heap s). heap s ! b \<noteq> None) \<longrightarrow> (\<forall>b < length h'. h' ! b \<noteq> None)"
          by blast
        let ?s' = "s\<lparr>heap := h',
                    active_transactions := removeAll (txn_id t) (active_transactions s),
                    total_commits := total_commits s + 1\<rparr>"
        have "mvcc_inv (?s', txns[i := t\<lparr>state := COMMITTED\<rparr>]) ns"
        proof (rule mvcc_inv_I)
          have "sl_inv (max_level s) (skip_list_level s) (header s) h' ns"
            using inv_sl [OF inv] by (simp only: same_links_sl_inv [OF l])
          then show "skiplist_inv ?s' ns" by (simp add: skiplist_inv_def)
          show "\<forall>a < length (heap ?s'). heap ?s' ! a \<noteq> None" using al' al by simp
          fix u a assume u: "u \<in> set (txns[i := t\<lparr>state := COMMITTED\<rparr>])"
            and a: "a \<in> set (modified_nodes u)"
          from u have "u = t\<lparr>state := COMMITTED\<rparr> \<or> u \<in> set txns"
            using set_update_subset_insert [of txns i] by auto
          with a mn tin have "a < length (heap s)" by auto
          with len show "a < length (heap ?s')" by simp
        qed
        moreover have "mvcc_step x (s, txns) = Some (?s', txns[i := t\<lparr>state := COMMITTED\<rparr>])"
          using Commit live c by (simp add: store_def)
        ultimately show ?thesis by blast
      qed
    qed
  next
    case (Abort i)
    show ?thesis
    proof (cases rule: handle_cases [of txns i])
      case null
      with Abort mi show ?thesis by (auto simp: abort_transaction_def store_def)
    next
      case (live t)
      show ?thesis
      proof (cases "is_active t")
        case False
        with live Abort mi show ?thesis by (auto simp: abort_transaction_def store_same)
      next
        case True
        from live have tin: "t \<in> set txns" by simp
        let ?s' = "s\<lparr>active_transactions := removeAll (txn_id t) (active_transactions s),
                      total_aborts := total_aborts s + 1\<rparr>"
        have "mvcc_inv (?s', txns[i := t\<lparr>state := ABORTED\<rparr>]) ns"
        proof (rule mvcc_inv_I)
          show "skiplist_inv ?s' ns" using inv by (simp add: skiplist_inv_def)
          show "\<forall>a < length (heap ?s'). heap ?s' ! a \<noteq> None" using al by simp
          fix u a assume u: "u \<in> set (txns[i := t\<lparr>state := ABORTED\<rparr>])"
            and a: "a \<in> set (modified_nodes u)"
          from u have "u = t\<lparr>state := ABORTED\<rparr> \<or> u \<in> set txns"
            using set_update_subset_insert [of txns i] by auto
          with a mn tin show "a < length (heap ?s')" by auto
        qed
        moreover have "mvcc_step x (s, txns) = Some (?s', txns[i := t\<lparr>state := ABORTED\<rparr>])"
          using Abort live True by (simp add: abort_transaction_def store_def)
        ultimately show ?thesis by blast
      qed
    qed
  next
    case (MInsert i k v coins)
    show ?thesis
    proof (cases rule: handle_cases [of txns i])
      case null
      with MInsert mi show ?thesis by (auto simp: mvcc_insert_element_def store_def)
    next
      case (live t)
      show ?thesis
      proof (cases "is_active t")
        case False
        with live MInsert mi show ?thesis
          by (auto simp: mvcc_insert_element_def store_same)
      next
        case True
        from live have tin: "t \<in> set txns" by simp
        from mvcc_insert_versions [OF inv True, of k v coins] obtain s' a ns' where
          ins: "mvcc_insert_element s (Some t) k v coins = Some (0, s', Some (add_modified_node t a))"
          and inv': "skiplist_inv s' ns'"
          and a: "a < length (heap s')" and le: "length (heap s) \<le> length (heap s')"
          and al': "(\<forall>b < length (heap s). heap s ! b \<noteq> None)
                \<longrightarrow> (\<forall>b < length (heap s'). heap s' ! b \<noteq> None)"
          by blast
        have "mvcc_inv (s', txns[i := add_modified_node t a]) ns'"
        proof (rule mvcc_inv_I)
          show "skiplist_inv s' ns'" by (rule inv')
          show "\<forall>a < length (heap s'). heap s' ! a \<noteq> None" using al' al by simp
          fix u b assume u: "u \<in> set (txns[i := add_modified_node t a])"
            and b: "b \<in> set (modified_nodes u)"
          from u have "u = add_modified_node t a \<or> u \<in> set txns"
            using set_update_subset_insert [of txns i] by auto
          then show "b < length (heap s')"
          proof
            assume "u = add_modified_node t a"
            with b have "b = a \<or> b \<in> set (modified_nodes t)" by (auto simp: add_modified_node_def)
            with a mn [OF tin] le show ?thesis by force
          next
            assume "u \<in> set txns"
            from mn [OF this b] le show ?thesis by simp
          qed
        qed
        moreover have "mvcc_step x (s, txns) = Some (s', txns[i := add_modified_node t a])"
          using MInsert live ins by (simp add: store_def)
        ultimately show ?thesis by blast
      qed
    qed
  next
    case (MDelete i k)
    from mvcc_delete_inv [OF inv, of "handle txns i" k] obtain s' where
      d: "mvcc_delete_element s (handle txns i) k = Some s'" and inv': "skiplist_inv s' ns"
      and len: "length (heap s') = length (heap s)"
      and al': "(\<forall>b < length (heap s). heap s ! b \<noteq> None)
                \<longrightarrow> (\<forall>b < length (heap s'). heap s' ! b \<noteq> None)"
      by blast
    have "mvcc_inv (s', txns) ns"
      using inv' al' al mn len by (intro mvcc_inv_I) auto
    with MDelete d show ?thesis by auto
  next
    case Gc
    from gc_inv [OF inv] obtain s' where
      g: "gc s = Some s'" and inv': "skiplist_inv s' ns"
      and len: "length (heap s') = length (heap s)"
      and al': "(\<forall>b < length (heap s). heap s ! b \<noteq> None)
                \<longrightarrow> (\<forall>b < length (heap s'). heap s' ! b \<noteq> None)"
      by blast
    have "mvcc_inv (s', txns) ns"
      using inv' al' al mn len by (intro mvcc_inv_I) auto
    with Gc g show ?thesis by auto
  qed
qed

lemma run_mvcc_inv:
  "mvcc_inv c ns \<Longrightarrow> \<exists>c' ns'. run_mvcc ops c = Some c' \<and> mvcc_inv c' ns'"
proof (induction ops arbitrary: c ns)
  case Nil
  then show ?case by auto
next
  case (Cons x ops)
  obtain s txns where c: "c = (s, txns)" by (cases c)
  from mvcc_step_inv [of s txns ns x] Cons.prems c obtain c1 ns1
    where 1: "mvcc_step x c = Some c1" "mvcc_inv c1 ns1" by auto
  from Cons.IH [OF 1(2)] 1(1) show ?case by simp
qed

lemma run_mvcc_append:
  "run_mvcc (xs @ ys) c = Option.bind (run_mvcc xs c) (run_mvcc ys)"
proof (induction xs arbitrary: c)
  case Nil
  then show ?case by simp
next
  case (Cons x xs)
  then show ?case by (cases "mvcc_step x c") simp_all
qed

lemma run_opt_append:
  "run_opt (xs @ ys) s = Option.bind (run_opt xs s) (run_opt ys)"
proof (induction xs arbitrary: s)
  case Nil
  then show ?case by simp
next
  case (Cons x xs)
  show ?case
  proof (cases x)
    case (Insert k v coins)
    with Cons show ?thesis by (cases "insert_element s k v coins") auto
  next
    case (Delete k)
    with Cons show ?thesis by (cases "delete_element s k") auto
  qed
qed

section \<open>Range queries\<close>

lemma collect_range_towers:
  assumes "seg h 0 p (map t_addr ts) None"
    and "\<And>t. t \<in> set ts \<Longrightarrow> \<exists>n. node_at h (t_addr t) = Some n \<and> key n = t_key t"
  shows "collect_range h p hi tid acc =
           Some (acc @ List.map_filter (\<lambda>t. visible_entry h tid (t_addr t))
                         (takeWhile (\<lambda>t. t_key t \<le> hi) ts))"
  using assms
proof (induction ts arbitrary: p acc)
  case Nil
  then show ?case by (subst collect_range.simps) simp
next
  case (Cons t ts)
  from Cons.prems(1) obtain r where r: "p = Some (t_addr t)" "get_forward h (t_addr t) 0 = Some r"
    "seg h 0 r (map t_addr ts) None" by auto
  from Cons.prems(2) [of t] obtain n where n: "node_at h (t_addr t) = Some n" "key n = t_key t"
    by auto
  from r(2) n(1) have sl: "slot (forward n) 0 = Some r" by (simp add: get_forward_def)
  show ?case
  proof (cases "t_key t \<le> hi")
    case False
    with r(1) n show ?thesis
      by (subst collect_range.simps) simp
  next
    case True
    let ?acc' = "case get_visible_version (version_head n) tid of
                   Some ver \<Rightarrow> acc @ [(key n, val ver)] | None \<Rightarrow> acc"
    from Cons.IH [OF r(3), of ?acc'] Cons.prems(2)
    have ih: "collect_range h r hi tid ?acc' =
           Some (?acc' @ List.map_filter (\<lambda>t. visible_entry h tid (t_addr t))
                         (takeWhile (\<lambda>t. t_key t \<le> hi) ts))" by simp
    have "collect_range h p hi tid acc = collect_range h r hi tid ?acc'"
      using r(1) n True sl by (subst collect_range.simps) simp
    with ih True n show ?thesis
      by (simp add: visible_entry_def split: option.splits)
  qed
qed

lemma takeWhile_le_sorted:
  "sorted_wrt (<) (map t_key ts) \<Longrightarrow>
     set (takeWhile (\<lambda>t. t_key t \<le> hi) ts) = {t \<in> set ts. t_key t \<le> (hi::'k::linorder)}"
proof (induction ts)
  case Nil
  then show ?case by simp
next
  case (Cons t ts)
  show ?case
  proof (cases "t_key t \<le> hi")
    case True
    with Cons show ?thesis by auto
  next
    case False
    with Cons.prems have "\<forall>u \<in> set ts. \<not> t_key u \<le> hi" by auto
    with False show ?thesis by auto
  qed
qed

lemma towers_from_set:
  assumes "sorted_wrt (<) (map t_key ns)"
  shows "u \<in> set (towers_from k ns) \<longleftrightarrow> u \<in> set ns \<and> k \<le> t_key u"
proof
  assume u: "u \<in> set (towers_from k ns)"
  from towers_from_ge [OF assms u] towers_from_subset [OF u]
  show "u \<in> set ns \<and> k \<le> t_key u" by (simp add: not_less)
next
  assume u: "u \<in> set ns \<and> k \<le> t_key u"
  have "set ns = set (towers_before k ns) \<union> set (towers_from k ns)"
    using towers_split [of k ns] set_append [of "towers_before k ns" "towers_from k ns"] by simp
  with u have "u \<in> set (towers_before k ns) \<or> u \<in> set (towers_from k ns)" by blast
  moreover have "u \<notin> set (towers_before k ns)"
  proof
    assume "u \<in> set (towers_before k ns)"
    then have "t_key u < k" by (rule towers_before_lt)
    with u show False by auto
  qed
  ultimately show "u \<in> set (towers_from k ns)" by blast
qed

lemma set_map_filter_iff:
  "y \<in> set (List.map_filter f xs) \<longleftrightarrow> (\<exists>x \<in> set xs. f x = Some y)"
  by (induction xs) (auto split: option.splits)

lemma sorted_map_filter:
  assumes "sorted_wrt (<) (map t_key ts)" "\<And>t x. f t = Some x \<Longrightarrow> fst x = t_key t"
  shows "sorted_wrt (<) (map fst (List.map_filter f ts))"
  using assms(1)
proof (induction ts)
  case Nil
  then show ?case by simp
next
  case (Cons t ts)
  have "t_key t < fst x" if "x \<in> set (List.map_filter f ts)" for x
  proof -
    from that obtain u where "u \<in> set ts" "f u = Some x" by (auto simp: set_map_filter_iff)
    with Cons.prems assms(2) [of u x] show ?thesis by auto
  qed
  with Cons assms(2) [of t] show ?case
    by (cases "f t") auto
qed

lemma visible_entry_key: "visible_entry h tid a = Some x \<Longrightarrow> get_key h a = Some (fst x)"
  by (auto simp: visible_entry_def get_key_def Option.bind_eq_Some_conv)

text \<open>What \<open>range_query\<close> returns for an active transaction and \<open>lo \<le> hi\<close>.\<close>

lemma range_query_towers:
  assumes inv: "skiplist_inv s ns" and act: "is_active t" and le: "lo \<le> hi"
  shows "range_query s (Some t) lo hi =
           Some (List.map_filter (\<lambda>u. visible_entry (heap s) (txn_id t) (t_addr u))
                   (takeWhile (\<lambda>u. t_key u \<le> hi) (towers_from lo ns)))"
proof -
  note sl = inv_sl [OF inv]
  have "seg (heap s) 0 (Some (header s)) (header s # lev 0 ns) None" by (rule inv_seg [OF sl]) simp
  then have "seg (heap s) 0 (Some (header s))
               ((header s # lev 0 (towers_before lo ns)) @ map t_addr (towers_from lo ns)) None"
    using lev_split [of 0 ns lo] by simp
  then obtain r where "seg (heap s) 0 r (map t_addr (towers_from lo ns)) None"
    unfolding seg_append by blast
  moreover from this candidate [OF sl, of lo]
  have "r = first_of (map t_addr (towers_from lo ns))"
    by (cases "towers_from lo ns") auto
  ultimately have sg: "seg (heap s) 0 (first_of (map t_addr (towers_from lo ns)))
                         (map t_addr (towers_from lo ns)) None" by simp
  have nodes: "\<exists>n. node_at (heap s) (t_addr u) = Some n \<and> key n = t_key u"
    if "u \<in> set (towers_from lo ns)" for u
    using inv_tower [OF sl towers_from_subset [OF that]] by blast
  from collect_range_towers [OF sg nodes, of hi "txn_id t" "[]"] le act show ?thesis
    unfolding range_query_def seek_position [OF sl]
    by (simp add: candidate [OF sl] not_less [symmetric])
qed

section \<open>Reachable states\<close>

lemma reachable_mvcc:
  "run_mvcc ops (new_SkipListMVCC ml hk, []) = Some (s, txns) \<Longrightarrow> \<exists>ns. mvcc_inv (s, txns) ns"
  using run_mvcc_inv [OF new_SkipListMVCC_inv, of ops ml hk] by auto

lemma reachable_opt:
  "run_opt ops (new_SkipListOptimized ml hk hv) = Some s \<Longrightarrow> \<exists>ns. opt_inv s ns"
  using run_opt_inv [OF new_SkipListOptimized_inv, of ops ml hk hv] by auto

section \<open>Visibility of a fresh version\<close>



lemma committed_visible:
  "tid < tid2 \<Longrightarrow> tid2 < UINT64_MAX \<Longrightarrow> is_visible ((Version v tid)\<lparr>is_committed := True\<rparr>) tid2"
  by (auto simp: is_visible_def Version_def)

lemma commit_version_head:
  "commit_version (Version v tid # ch) tid
     = (Version v tid)\<lparr>is_committed := True\<rparr> # commit_version ch tid"
  by (simp add: Version_def)

section \<open>A write followed by the commit of its transaction\<close>

lemma find_node_tower:
  assumes inv: "skiplist_inv s ns" and f: "find_node s k = Some (Some a)"
  shows "\<exists>tw. tw \<in> set ns \<and> t_key tw = k \<and> t_addr tw = a"
proof (cases "k \<in> t_key ` set ns")
  case False
  from find_node_absent [OF inv False] f show ?thesis by simp
next
  case True
  then obtain tw where tw: "tw \<in> set ns" "t_key tw = k" by auto
  from find_node_present [OF inv tw] f have "t_addr tw = a" by simp
  with tw show ?thesis by blast
qed

lemma key_versions_node:
  "find_node s k = Some (Some a) \<Longrightarrow> key_versions s k = versions_at s a"
  by (simp add: key_versions_def)

lemma insert_then_commit:
  assumes mi: "mvcc_inv (s, txns) ns" and j: "j < length txns" and act: "is_active (txns ! j)"
  shows "\<exists>s2 a ch s3.
           mvcc_insert_element s (Some (txns ! j)) k v coins
             = Some (0, s2, Some (add_modified_node (txns ! j) a))
         \<and> key_versions s k = Some ch
         \<and> key_versions s2 k = Some (Version v (txn_id (txns ! j)) # ch)
         \<and> (\<exists>ns2. skiplist_inv s2 ns2)
         \<and> commit_transaction s2 (Some (add_modified_node (txns ! j) a))
             = Some (True, s3, Some ((add_modified_node (txns ! j) a)\<lparr>state := COMMITTED\<rparr>))
         \<and> key_versions s3 k = Some (commit_version (Version v (txn_id (txns ! j)) # ch)
                                       (txn_id (txns ! j)))
         \<and> (\<exists>ns3. skiplist_inv s3 ns3)"
proof -
  let ?t = "txns ! j"
  note inv = mvcc_inv_D(1) [OF mi] and al = mvcc_inv_D(2) [OF mi] and mn = mvcc_inv_D(3) [OF mi]
  from j have tin: "?t \<in> set txns" by simp
  from mvcc_insert_versions [OF inv act, of k v coins] obtain s2 a ns2 ch where
    ins: "mvcc_insert_element s (Some ?t) k v coins = Some (0, s2, Some (add_modified_node ?t a))"
    and inv2: "skiplist_inv s2 ns2"
    and fn: "find_node s2 k = Some (Some a)"
    and kv: "key_versions s k = Some ch"
    and kv2: "key_versions s2 k = Some (Version v (txn_id ?t) # ch)"
    and a: "a < length (heap s2)" and le: "length (heap s) \<le> length (heap s2)"
    and al2: "(\<forall>b < length (heap s). heap s ! b \<noteq> None)
                \<longrightarrow> (\<forall>b < length (heap s2). heap s2 ! b \<noteq> None)"
    by blast
  let ?t' = "add_modified_node ?t a"
  have act': "is_active ?t'" using act by (simp add: is_active_def add_modified_node_def)
  have tid': "txn_id ?t' = txn_id ?t" by (simp add: add_modified_node_def)
  have valid: "b < length (heap s2) \<and> heap s2 ! b \<noteq> None" if "b \<in> set (modified_nodes ?t')" for b
  proof -
    from that have "b = a \<or> b \<in> set (modified_nodes ?t)" by (auto simp: add_modified_node_def)
    with a mn [OF tin] le have "b < length (heap s2)" by force
    with al2 al show ?thesis by simp
  qed
  from commit_active [OF inv2 act' valid] obtain h3 where
    c: "commit_transaction s2 (Some ?t') =
            Some (True,
                  s2\<lparr>heap := h3,
                    active_transactions := removeAll (txn_id ?t') (active_transactions s2),
                    total_commits := total_commits s2 + 1\<rparr>,
                  Some (?t'\<lparr>state := COMMITTED\<rparr>))"
    and l: "same_links (heap s2) h3"
    and vh: "\<And>b. map_option version_head (node_at h3 b)
                   = map_option (\<lambda>n. if b \<in> set (modified_nodes ?t')
                                       then commit_version (version_head n) (txn_id ?t')
                                       else version_head n) (node_at (heap s2) b)"
    by blast
  let ?s3 = "s2\<lparr>heap := h3,
                    active_transactions := removeAll (txn_id ?t') (active_transactions s2),
                    total_commits := total_commits s2 + 1\<rparr>"
  have "sl_inv (max_level s2) (skip_list_level s2) (header s2) h3 ns2"
    using inv_sl [OF inv2] by (simp only: same_links_sl_inv [OF l])
  then have inv3: "skiplist_inv ?s3 ns2" by (simp add: skiplist_inv_def)
  from find_node_tower [OF inv2 fn] obtain tw where tw: "tw \<in> set ns2" "t_key tw = k"
    "t_addr tw = a" by blast
  from find_node_present [OF inv3 tw(1,2)] tw(3) have fn3: "find_node ?s3 k = Some (Some a)"
    by simp
  have amem: "a \<in> set (modified_nodes ?t')" by (simp add: add_modified_node_def)
  from kv2 fn have "versions_at s2 a = Some (Version v (txn_id ?t) # ch)"
    by (simp add: key_versions_node)
  then obtain n2 where n2: "node_at (heap s2) a = Some n2"
    "version_head n2 = Version v (txn_id ?t) # ch" by (auto simp: versions_at_def)
  from vh [of a] n2 amem tid'
  have "versions_at ?s3 a = Some (commit_version (Version v (txn_id ?t) # ch) (txn_id ?t))"
    by (simp add: versions_at_def)
  with fn3 have kv3: "key_versions ?s3 k
                        = Some (commit_version (Version v (txn_id ?t) # ch) (txn_id ?t))"
    by (simp add: key_versions_node)
  from ins kv kv2 inv2 c kv3 inv3 show ?thesis by blast
qed

section \<open>Lookup in the optimized list\<close>

lemma search_element_present:
  assumes oi: "opt_inv s ns" and tw: "tw \<in> set ns" "t_key tw = k"
    and n: "node_at (heap s) (t_addr tw) = Some n"
  shows "search_element s k = Some (True, Found k (val_opt n))"
proof -
  note sl = opt_inv_sl [OF oi]
  from tw have kin: "k \<in> t_key ` set ns" by auto
  from towers_from_present [OF inv_sorted [OF sl] tw] obtain rest
    where rest: "towers_from k ns = tw # rest" by blast
  from candidate [OF sl, of k] rest
  have c: "get_forward (heap s) (pred_at (header s) k ns 0) 0 = Some (Some (t_addr tw))" by simp
  from key_matches_candidate [OF sl, of k] rest kin
  have m: "key_matches (heap s) (Some (t_addr tw)) k = Some True" by simp
  show ?thesis unfolding search_element_def seek_position [OF sl] by (simp add: c m n)
qed

lemma search_element_absent:
  assumes oi: "opt_inv s ns" and "k \<notin> t_key ` set ns"
  shows "search_element s k = Some (False, Not_Found k)"
proof -
  note sl = opt_inv_sl [OF oi]
  from key_matches_candidate [OF sl, of k] assms(2)
  have m: "key_matches (heap s) (first_of (map t_addr (towers_from k ns))) k = Some False" by simp
  show ?thesis unfolding search_element_def seek_position [OF sl]
    by (simp add: candidate [OF sl] m)
qed

text \<open>A second insert of a key finds it, returns 1 and changes nothing.\<close>

lemma insert_twice:
  assumes oi: "opt_inv s ns"
  shows "\<exists>r s1 w. insert_element s k v1 c1 = Some (r, s1)
          \<and> insert_element s1 k v2 c2 = Some (1, s1)
          \<and> search_element s1 k = Some (True, Found k w)
          \<and> (r = 0 \<longrightarrow> w = v1) \<and> (r \<noteq> 0 \<longrightarrow> s1 = s)"
proof (cases "k \<in> t_key ` set ns")
  case True
  then obtain tw where tw: "tw \<in> set ns" "t_key tw = k" by auto
  from inv_tower [OF opt_inv_sl [OF oi] tw(1)] obtain n
    where n: "node_at (heap s) (t_addr tw) = Some n" by blast
  from insert_element_existing [OF oi True] search_element_present [OF oi tw n]
  show ?thesis by auto
next
  case False
  let ?rl = "get_random_level (max_level s) c1"
  let ?a = "length (heap s)"
  let ?ns' = "towers_before k ns @ (?a, k, ?rl) # towers_from k ns"
  from insert_element_new [OF oi False, of v1 c1] obtain h' s1 where
    s1: "s1 = s\<lparr>skip_list_level := max (skip_list_level s) ?rl, heap := h',
                 element_count := element_count s + 1,
                 memory_pool := (memory_pool s)\<lparr>allocated_count :=
                                   allocated_count (memory_pool s) + 1\<rparr>\<rparr>"
    and ins: "insert_element s k v1 c1 = Some (0, s1)"
    and sd: "same_data (heap s @ [Some (new_NodeOpt k v1 ?rl)]) h'"
    and sl': "sl_inv (max_level s) (max (skip_list_level s) ?rl) (header s) h' ?ns'"
    by blast
  from oi have "free_list (memory_pool s) = []" by (simp add: opt_inv_def)
  with sl' s1 have oi1: "opt_inv s1 ?ns'" by (simp add: opt_inv_def skiplist_inv_def)
  have tw: "(?a, k, ?rl) \<in> set ?ns'" "t_key (?a, k, ?rl) = k" by (simp_all add: t_key_def)
  then have kin: "k \<in> t_key ` set ?ns'" by force
  have "node_at (heap s @ [Some (new_NodeOpt k v1 ?rl)]) ?a = Some (new_NodeOpt k v1 ?rl)"
    by (simp add: node_at_append)
  from same_data_node_at [OF sd this] obtain n' where n': "node_at h' ?a = Some n'"
    "n'\<lparr>forward := []\<rparr> = (new_NodeOpt k v1 ?rl)\<lparr>forward := []\<rparr>" by blast
  from n'(2) have "val_opt n' = val_opt (new_NodeOpt k v1 ?rl)" by (rule data_val_opt)
  then have v: "val_opt n' = v1" by (simp add: new_NodeOpt_def)
  from n'(1) s1 have "node_at (heap s1) (t_addr (?a, k, ?rl)) = Some n'" by (simp add: t_addr_def)
  from search_element_present [OF oi1 tw this] v
  have "search_element s1 k = Some (True, Found k v1)" by simp
  with ins insert_element_existing [OF oi1 kin] show ?thesis by auto
qed

section \<open>The keys of every level are strictly increasing\<close>

lemma levels_sorted:
  assumes inv: "skiplist_inv s ns" and i: "i \<le> skip_list_level s"
  shows "\<exists>ks. level_keys s i = Some ks \<and> sorted_wrt (<) ks"
proof -
  note sl = inv_sl [OF inv]
  from i inv_level_le [OF sl] have "i \<le> max_level s" by simp
  from level_keys_towers [OF inv this] sorted_level [OF inv_sorted [OF sl]]
  show ?thesis by simp
qed

text \<open>
  C5.  Every sequence of \<open>insert_element\<close> and \<open>delete_element\<close> calls on a fresh
  optimized list returns, and so does every sequence of client calls (begin, commit,
  abort, insert, delete, gc) on a fresh MVCC list; in the list reached, for every
  level \<open>i\<close> from 0 to the current level, the walk along \<open>forward[i]\<close> from the header
  ends and the keys it meets are strictly increasing.
\<close>

theorem C5_levels_strictly_increasing:
  "(\<exists>s. run_opt ops (new_SkipListOptimized ml hk hv) = Some s
        \<and> (\<forall>i \<le> skip_list_level s. \<exists>ks. level_keys s i = Some ks \<and> sorted_wrt (<) ks))
   \<and> (\<exists>s txns. run_mvcc mops (new_SkipListMVCC ml' hk', []) = Some (s, txns)
        \<and> (\<forall>i \<le> skip_list_level s. \<exists>ks. level_keys s i = Some ks \<and> sorted_wrt (<) ks))"
proof
  from run_opt_inv [OF new_SkipListOptimized_inv, of ops ml hk hv] obtain s ns
    where s: "run_opt ops (new_SkipListOptimized ml hk hv) = Some s" "opt_inv s ns" by blast
  from s(2) have "skiplist_inv s ns" by (simp add: opt_inv_def)
  then have "\<forall>i \<le> skip_list_level s. \<exists>ks. level_keys s i = Some ks \<and> sorted_wrt (<) ks"
    using levels_sorted by blast
  with s(1) show "\<exists>s. run_opt ops (new_SkipListOptimized ml hk hv) = Some s
        \<and> (\<forall>i \<le> skip_list_level s. \<exists>ks. level_keys s i = Some ks \<and> sorted_wrt (<) ks)"
    by blast
next
  from run_mvcc_inv [OF new_SkipListMVCC_inv, of mops ml' hk'] obtain s txns ns
    where s: "run_mvcc mops (new_SkipListMVCC ml' hk', []) = Some (s, txns)"
      "mvcc_inv (s, txns) ns" by (metis surj_pair)
  from mvcc_inv_D(1) [OF s(2)]
  have "\<forall>i \<le> skip_list_level s. \<exists>ks. level_keys s i = Some ks \<and> sorted_wrt (<) ks"
    using levels_sorted by blast
  with s(1) show "\<exists>s txns. run_mvcc mops (new_SkipListMVCC ml' hk', []) = Some (s, txns)
        \<and> (\<forall>i \<le> skip_list_level s. \<exists>ks. level_keys s i = Some ks \<and> sorted_wrt (<) ks)"
    by blast
qed

theorem C5_levels_strictly_increasing_witness:
  "Option.bind (run_opt [Insert (10::int) ''x'' 4, Insert 3 ''y'' 0, Insert 7 ''z'' 1, Delete 3]
                  (new_SkipListOptimized 6 0 ''''))
     (\<lambda>s. map_option (sorted_wrt (<)) (level_keys s 1)) = Some True
   \<and> Option.bind (run_opt [Insert (10::int) ''x'' 4, Insert 3 ''y'' 0, Insert 7 ''z'' 1, Delete 3]
                  (new_SkipListOptimized 6 0 ''''))
       (\<lambda>s. level_keys s 1) = Some [7, 10]
   \<and> Option.bind (run_mvcc [Begin, MInsert 0 (10::int) ''x'' 4, MInsert 0 3 ''y'' 0,
                             MInsert 0 7 ''z'' 1, MDelete 0 3, Commit 0]
                  (new_SkipListMVCC 6 0, []))
       (\<lambda>c. map_option (sorted_wrt (<)) (level_keys (fst c) 1)) = Some True
   \<and> Option.bind (run_mvcc [Begin, MInsert 0 (10::int) ''x'' 4, MInsert 0 3 ''y'' 0,
                             MInsert 0 7 ''z'' 1, MDelete 0 3, Commit 0]
                  (new_SkipListMVCC 6 0, []))
       (\<lambda>c. level_keys (fst c) 1) = Some [3, 7, 10]"
proof -
  let ?ops = "[Insert (10::int) ''x'' 4, Insert 3 ''y'' 0, Insert 7 ''z'' 1, Delete 3]"
  let ?init = "new_SkipListOptimized 6 (0::int) ''''"
  let ?mops = "[Begin, MInsert 0 (10::int) ''x'' 4, MInsert 0 3 ''y'' 0,
                MInsert 0 7 ''z'' 1, MDelete 0 3, Commit 0]"
  let ?minit = "(new_SkipListMVCC 6 (0::int) :: (int, string) SkipListMVCC, [])"
  have lv: "map_option skip_list_level (run_opt ?ops ?init) = Some 5" by code_simp
  have ks: "Option.bind (run_opt ?ops ?init) (\<lambda>s. level_keys s 1) = Some [7, 10]" by code_simp
  have mlv: "map_option (\<lambda>c. skip_list_level (fst c)) (run_mvcc ?mops ?minit) = Some 5"
    by code_simp
  have mks: "Option.bind (run_mvcc ?mops ?minit) (\<lambda>c. level_keys (fst c) 1) = Some [3, 7, 10]"
    by code_simp
  from C5_levels_strictly_increasing [of ?ops 6 0 "''''" ?mops 6 0] obtain s s' txns
    where r: "run_opt ?ops ?init = Some s"
      and a: "\<forall>i \<le> skip_list_level s. \<exists>ks. level_keys s i = Some ks \<and> sorted_wrt (<) ks"
      and r': "run_mvcc ?mops ?minit = Some (s', txns)"
      and a': "\<forall>i \<le> skip_list_level s'. \<exists>ks. level_keys s' i = Some ks \<and> sorted_wrt (<) ks"
    by blast
  from lv have "skip_list_level s = 5" by (simp only: r option.map option.inject)
  then have "1 \<le> skip_list_level s" by simp
  with a obtain ks where "level_keys s 1 = Some ks" "sorted_wrt (<) ks" by blast
  then have 1: "Option.bind (run_opt ?ops ?init)
                  (\<lambda>s. map_option (sorted_wrt (<)) (level_keys s 1)) = Some True"
    by (simp only: r Option.bind.simps option.map)
  from mlv have "skip_list_level s' = 5" by (simp only: r' option.map option.inject fst_conv)
  then have "1 \<le> skip_list_level s'" by simp
  with a' obtain ks' where "level_keys s' 1 = Some ks'" "sorted_wrt (<) ks'" by blast
  then have 2: "Option.bind (run_mvcc ?mops ?minit)
                  (\<lambda>c. map_option (sorted_wrt (<)) (level_keys (fst c) 1)) = Some True"
    by (simp only: r' Option.bind.simps option.map fst_conv)
  from 1 ks 2 mks show ?thesis by (intro conjI)
qed

section \<open>Insertion by an active transaction\<close>

text \<open>
  C10.  In a state reached by client calls on a fresh MVCC list, \<open>insert_element\<close>
  by an active transaction returns 0, whether the key had a node (the search finds
  node \<open>a\<close> before the call) or not (the search finds nothing before the call, and
  node \<open>a\<close> after it).  The version chain of the key after the call is its chain
  before the call (empty for a new key) with one new version in front, uncommitted,
  with the value written and \<open>create_ts\<close> the transaction's id; and the
  transaction's modified-node list is extended once, by the address of the node.
\<close>

theorem C10_insert_returns_zero:
  assumes "run_mvcc ops (new_SkipListMVCC ml hk, []) = Some (s, txns)" and "is_active t"
  shows "\<exists>s' a ch.
           mvcc_insert_element s (Some t) k v coins
             = Some (0, s', Some (t\<lparr>modified_nodes := modified_nodes t @ [a]\<rparr>))
         \<and> (find_node s k = Some None \<or> find_node s k = Some (Some a))
         \<and> find_node s' k = Some (Some a)
         \<and> key_versions s k = Some ch
         \<and> key_versions s' k
             = Some (\<lparr>val = v, create_ts = txn_id t, delete_ts = UINT64_MAX,
                      is_committed = False\<rparr> # ch)"
proof -
  from reachable_mvcc [OF assms(1)] obtain ns where "mvcc_inv (s, txns) ns" by blast
  then have inv: "skiplist_inv s ns" by (rule mvcc_inv_D(1))
  from mvcc_insert_versions [OF inv assms(2), of k v coins] obtain s' a ch where
    "mvcc_insert_element s (Some t) k v coins = Some (0, s', Some (add_modified_node t a))"
    "find_node s' k = Some (Some a)"
    "find_node s k = Some None \<or> find_node s k = Some (Some a)"
    "key_versions s k = Some ch"
    "key_versions s' k = Some (Version v (txn_id t) # ch)"
    by blast
  then show ?thesis unfolding add_modified_node_def Version_def by blast
qed

theorem C10_insert_returns_zero_witness:
  "Option.bind (run_mvcc [Begin, MInsert 0 (10::int) ''a'' 2, Begin] (new_SkipListMVCC 6 0, []))
     (\<lambda>c. map_option fst (mvcc_insert_element (fst c) (Some (snd c ! 1)) 10 ''b'' 0)) = Some 0
   \<and> Option.bind (run_mvcc [Begin, MInsert 0 (10::int) ''a'' 2, Begin] (new_SkipListMVCC 6 0, []))
       (\<lambda>c. map_option fst (mvcc_insert_element (fst c) (Some (snd c ! 1)) 11 ''b'' 0)) = Some 0
   \<and> Option.bind (run_mvcc [Begin, MInsert 0 (10::int) ''a'' 2, Begin] (new_SkipListMVCC 6 0, []))
       (\<lambda>c. find_node (fst c) 10) = Some (Some 1)
   \<and> Option.bind (run_mvcc [Begin, MInsert 0 (10::int) ''a'' 2, Begin] (new_SkipListMVCC 6 0, []))
       (\<lambda>c. find_node (fst c) 11) = Some None"
proof -
  let ?ops = "[Begin, MInsert 0 (10::int) ''a'' 2, Begin]"
  let ?init = "(new_SkipListMVCC 6 (0::int) :: (int, string) SkipListMVCC, [])"
  have f10: "Option.bind (run_mvcc ?ops ?init) (\<lambda>c. find_node (fst c) 10) = Some (Some 1)"
    by code_simp
  have f11: "Option.bind (run_mvcc ?ops ?init) (\<lambda>c. find_node (fst c) 11) = Some None"
    by code_simp
  have act: "map_option (\<lambda>c. is_active (snd c ! 1)) (run_mvcc ?ops ?init) = Some True"
    by code_simp
  from run_mvcc_inv [OF new_SkipListMVCC_inv, of ?ops 6 0] obtain s txns
    where r: "run_mvcc ?ops ?init = Some (s, txns)" by (metis surj_pair)
  from act have a: "is_active (txns ! 1)" by (simp only: r option.map option.inject snd_conv)
  from C10_insert_returns_zero [OF r a, of 10 "''b''" 0]
  have 1: "Option.bind (run_mvcc ?ops ?init)
            (\<lambda>c. map_option fst (mvcc_insert_element (fst c) (Some (snd c ! 1)) 10 ''b'' 0)) = Some 0"
    unfolding r by auto
  from C10_insert_returns_zero [OF r a, of 11 "''b''" 0]
  have 2: "Option.bind (run_mvcc ?ops ?init)
            (\<lambda>c. map_option fst (mvcc_insert_element (fst c) (Some (snd c ! 1)) 11 ''b'' 0)) = Some 0"
    unfolding r by auto
  from 1 2 f10 f11 show ?thesis by (intro conjI)
qed

section \<open>Range queries\<close>

lemma sorted_map_filter_in:
  assumes "sorted_wrt (<) (map t_key ts)"
    "\<And>t x. t \<in> set ts \<Longrightarrow> f t = Some x \<Longrightarrow> fst x = t_key t"
  shows "sorted_wrt (<) (map fst (List.map_filter f ts))"
  using assms
proof (induction ts)
  case Nil
  then show ?case by simp
next
  case (Cons t ts)
  have "t_key t < fst x" if "x \<in> set (List.map_filter f ts)" for x
  proof -
    from that obtain u where "u \<in> set ts" "f u = Some x" by (auto simp: set_map_filter_iff)
    with Cons.prems(1) Cons.prems(2) [of u x] show ?thesis by auto
  qed
  moreover from Cons have "sorted_wrt (<) (map fst (List.map_filter f ts))" by simp
  ultimately show ?case using Cons.prems(2) [of t]
    by (cases "f t") auto
qed

lemma sorted_takeWhile_keys:
  "sorted_wrt (<) (map t_key ts) \<Longrightarrow> sorted_wrt (<) (map t_key (takeWhile P ts))"
  by (induction ts) (auto dest: set_takeWhileD)

lemma range_query_sound:
  assumes inv: "skiplist_inv s ns" and act: "is_active t"
  shows "\<exists>res. range_query s (Some t) lo hi = Some res
           \<and> (hi < lo \<longrightarrow> res = [])
           \<and> sorted_wrt (<) (map fst res)
           \<and> (\<forall>k v. (k, v) \<in> set res \<longleftrightarrow>
                 lo \<le> k \<and> k \<le> hi
                 \<and> (\<exists>a ch ver. find_node s k = Some (Some a) \<and> versions_at s a = Some ch
                       \<and> get_visible_version ch (txn_id t) = Some ver \<and> val ver = v))"
proof (cases "hi < lo")
  case True
  with act have "range_query s (Some t) lo hi = Some []" by (simp add: range_query_def)
  with True show ?thesis by auto
next
  case False
  then have le: "lo \<le> hi" by simp
  note sl = inv_sl [OF inv]
  note srt = inv_sorted [OF sl]
  let ?f = "\<lambda>u. visible_entry (heap s) (txn_id t) (t_addr u)"
  let ?ts = "takeWhile (\<lambda>u. t_key u \<le> hi) (towers_from lo ns)"
  let ?res = "List.map_filter ?f ?ts"
  have rq: "range_query s (Some t) lo hi = Some ?res" by (rule range_query_towers [OF inv act le])
  have sf: "sorted_wrt (<) (map t_key (towers_from lo ns))" by (rule towers_from_sorted [OF srt])
  have mem: "u \<in> set ?ts \<longleftrightarrow> u \<in> set ns \<and> lo \<le> t_key u \<and> t_key u \<le> hi" for u
    using takeWhile_le_sorted [OF sf, of hi] towers_from_set [OF srt, of u lo] by auto
  have key: "fst x = t_key u" if "u \<in> set ?ts" "?f u = Some x" for u x
  proof -
    from that(1) mem have "u \<in> set ns" by simp
    from inv_get_key [OF sl this] visible_entry_key [OF that(2)] show ?thesis by simp
  qed
  have sorted: "sorted_wrt (<) (map fst ?res)"
    by (rule sorted_map_filter_in [OF sorted_takeWhile_keys [OF sf]]) (rule key)
  have iff: "(k, v) \<in> set ?res \<longleftrightarrow>
                 lo \<le> k \<and> k \<le> hi
                 \<and> (\<exists>a ch ver. find_node s k = Some (Some a) \<and> versions_at s a = Some ch
                       \<and> get_visible_version ch (txn_id t) = Some ver \<and> val ver = v)"
    (is "?L \<longleftrightarrow> ?R") for k v
  proof
    assume ?L
    then obtain u where u: "u \<in> set ?ts" "?f u = Some (k, v)"
      unfolding set_map_filter_iff by blast
    from key [OF u] have k: "t_key u = k" by simp
    from u(1) mem have un: "u \<in> set ns" and bounds: "lo \<le> t_key u" "t_key u \<le> hi" by simp_all
    from find_node_present [OF inv un k] have fn: "find_node s k = Some (Some (t_addr u))" .
    from u(2) obtain n ver where n: "node_at (heap s) (t_addr u) = Some n"
      "get_visible_version (version_head n) (txn_id t) = Some ver" "val ver = v"
      by (auto simp: visible_entry_def Option.bind_eq_Some_conv)
    from n(1) have "versions_at s (t_addr u) = Some (version_head n)" by (simp add: versions_at_def)
    with fn n(2,3) bounds k show ?R by blast
  next
    assume r: ?R
    then obtain a ch ver where fn: "find_node s k = Some (Some a)"
      and va: "versions_at s a = Some ch"
      and gv: "get_visible_version ch (txn_id t) = Some ver" and v: "val ver = v" by blast
    from find_node_tower [OF inv fn] obtain tw where tw: "tw \<in> set ns" "t_key tw = k"
      "t_addr tw = a" by blast
    from inv_tower [OF sl tw(1)] tw obtain n where n: "node_at (heap s) a = Some n" "key n = k"
      by auto
    from va n(1) have "ch = version_head n" by (simp add: versions_at_def)
    with n gv v tw(3) have "?f tw = Some (k, v)" by (simp add: visible_entry_def)
    moreover from r tw mem have "tw \<in> set ?ts" by simp
    ultimately show ?L unfolding set_map_filter_iff by blast
  qed
  from rq False sorted iff show ?thesis by simp
qed

text \<open>
  C6.  In a state reached by client calls on a fresh MVCC list, \<open>range_query\<close>
  by an active transaction returns; the result is empty when \<open>lo > hi\<close>; its keys
  are strictly increasing; and a pair \<open>(k, v)\<close> is in it exactly when
  \<open>lo \<le> k \<le> hi\<close>, the search finds a node for \<open>k\<close>, and \<open>v\<close> is the value of the
  first version of that node's chain visible to the transaction.
\<close>

theorem C6_range_query:
  assumes "run_mvcc ops (new_SkipListMVCC ml hk, []) = Some (s, txns)" and "is_active t"
  shows "\<exists>res. range_query s (Some t) lo hi = Some res
           \<and> (hi < lo \<longrightarrow> res = [])
           \<and> sorted_wrt (<) (map fst res)
           \<and> (\<forall>k v. (k, v) \<in> set res \<longleftrightarrow>
                 lo \<le> k \<and> k \<le> hi
                 \<and> (\<exists>a ch ver. find_node s k = Some (Some a) \<and> versions_at s a = Some ch
                       \<and> get_visible_version ch (txn_id t) = Some ver \<and> val ver = v))"
proof -
  from reachable_mvcc [OF assms(1)] obtain ns where "mvcc_inv (s, txns) ns" by blast
  then have "skiplist_inv s ns" by (rule mvcc_inv_D(1))
  from range_query_sound [OF this assms(2)] show ?thesis .
qed

theorem C6_range_query_witness:
  "Option.bind (run_mvcc [Begin, MInsert 0 (10::int) ''a'' 2, MInsert 0 20 ''b'' 0,
                          MInsert 0 30 ''c'' 1, Commit 0, Begin, MDelete 1 20, Begin]
                  (new_SkipListMVCC 6 0, []))
     (\<lambda>c. range_query (fst c) (Some (snd c ! 2)) 10 20) = Some [(10, ''a'')]
   \<and> Option.bind (run_mvcc [Begin, MInsert 0 (10::int) ''a'' 2, MInsert 0 20 ''b'' 0,
                          MInsert 0 30 ''c'' 1, Commit 0, Begin, MDelete 1 20, Begin]
                  (new_SkipListMVCC 6 0, []))
     (\<lambda>c. range_query (fst c) (Some (snd c ! 1)) 10 30) = Some [(10, ''a''), (30, ''c'')]
   \<and> Option.bind (run_mvcc [Begin, MInsert 0 (10::int) ''a'' 2, MInsert 0 20 ''b'' 0,
                          MInsert 0 30 ''c'' 1, Commit 0, Begin, MDelete 1 20, Begin]
                  (new_SkipListMVCC 6 0, []))
     (\<lambda>c. range_query (fst c) (Some (snd c ! 2)) 30 10) = Some []"
proof -
  let ?ops = "[Begin, MInsert 0 (10::int) ''a'' 2, MInsert 0 20 ''b'' 0,
               MInsert 0 30 ''c'' 1, Commit 0, Begin, MDelete 1 20, Begin]"
  let ?init = "(new_SkipListMVCC 6 (0::int) :: (int, string) SkipListMVCC, [])"
  have e1: "Option.bind (run_mvcc ?ops ?init)
              (\<lambda>c. range_query (fst c) (Some (snd c ! 2)) 10 20) = Some [(10, ''a'')]"
    by code_simp
  have e2: "Option.bind (run_mvcc ?ops ?init)
              (\<lambda>c. range_query (fst c) (Some (snd c ! 1)) 10 30) = Some [(10, ''a''), (30, ''c'')]"
    by code_simp
  have act: "map_option (\<lambda>c. is_active (snd c ! 2)) (run_mvcc ?ops ?init) = Some True"
    by code_simp
  from run_mvcc_inv [OF new_SkipListMVCC_inv, of ?ops 6 0] obtain s txns
    where r: "run_mvcc ?ops ?init = Some (s, txns)" by (metis surj_pair)
  from act have a: "is_active (txns ! 2)" by (simp only: r option.map option.inject snd_conv)
  from C6_range_query [OF r a, of 30 10] obtain res where
    "range_query s (Some (txns ! 2)) 30 10 = Some res" "(10::int) < 30 \<longrightarrow> res = []" by blast
  then have "range_query s (Some (txns ! 2)) 30 10 = Some []" by simp
  then have e3: "Option.bind (run_mvcc ?ops ?init)
              (\<lambda>c. range_query (fst c) (Some (snd c ! 2)) 30 10) = Some []"
    by (simp only: r Option.bind.simps fst_conv snd_conv)
  from e1 e2 e3 show ?thesis by (intro conjI)
qed

section \<open>Reads around a write and its commit\<close>



lemma search_after_commit:
  assumes inv: "skiplist_inv s ns"
    and kv: "key_versions s k = Some (commit_version (Version v tid # ch) tid)"
    and act: "is_active t'" and lt: "tid < txn_id t'" "txn_id t' < UINT64_MAX"
  shows "mvcc_search_element s (Some t') k = Some (True, Some v)"
proof -
  let ?hd = "(Version v tid)\<lparr>is_committed := True\<rparr>"
  from mvcc_search_element_versions [OF inv act, of k] kv
  have "mvcc_search_element s (Some t') k =
          Some (case get_visible_version (?hd # commit_version ch tid) (txn_id t') of
                  Some ver \<Rightarrow> (True, Some (val ver)) | None \<Rightarrow> (False, None))"
    by (simp only: commit_version_head option.inject) simp
  moreover have "get_visible_version (?hd # commit_version ch tid) (txn_id t') = Some ?hd"
    using committed_visible [OF lt, of v] by simp
  moreover have "val ?hd = v" by (simp add: Version_def)
  ultimately show ?thesis by simp
qed




section \<open>Calls that leave a write in place\<close>












section \<open>Two inserts of the same key\<close>

lemma insert_step:
  assumes mi: "mvcc_inv (s, txns) ns" and i: "i < length txns" and act: "is_active (txns ! i)"
  shows "\<exists>s1 t1 ns1. mvcc_step (MInsert i k v coins) (s, txns) = Some (s1, txns[i := t1])
           \<and> mvcc_inv (s1, txns[i := t1]) ns1
           \<and> is_active t1 \<and> txn_id t1 = txn_id (txns ! i)"
proof -
  note inv = mvcc_inv_D(1) [OF mi]
  from mvcc_insert_versions [OF inv act, of k v coins] obtain s1 a where
    ins: "mvcc_insert_element s (Some (txns ! i)) k v coins
            = Some (0, s1, Some (add_modified_node (txns ! i) a))"
    by blast
  let ?t1 = "add_modified_node (txns ! i) a"
  from ins i have st: "mvcc_step (MInsert i k v coins) (s, txns) = Some (s1, txns[i := ?t1])"
    by (simp add: handle_def store_def)
  from mvcc_step_inv [OF mi, of "MInsert i k v coins"] obtain c' ns1
    where "mvcc_step (MInsert i k v coins) (s, txns) = Some c'" "mvcc_inv c' ns1" by blast
  with st have "mvcc_inv (s1, txns[i := ?t1]) ns1" by simp
  moreover have "is_active ?t1" "txn_id ?t1 = txn_id (txns ! i)"
    using act by (simp_all add: is_active_def add_modified_node_def)
  ultimately show ?thesis using st by blast
qed

lemma insert_insert_commit:
  assumes mi: "mvcc_inv (s, txns) ns" and i: "i < length txns" and j: "j < length txns"
    and acti: "is_active (txns ! i)" and actj: "is_active (txns ! j)"
  shows "\<exists>s3 txns3. run_mvcc [MInsert i k v1 c1, MInsert j k v2 c2, Commit j] (s, txns)
                       = Some (s3, txns3)
           \<and> (\<forall>t3. is_active t3 \<and> txn_id (txns ! j) < txn_id t3 \<and> txn_id t3 < UINT64_MAX
                  \<longrightarrow> mvcc_search_element s3 (Some t3) k = Some (True, Some v2))"
proof -
  from insert_step [OF mi i acti, of k v1 c1] obtain s1 t1 ns1 where
    st1: "mvcc_step (MInsert i k v1 c1) (s, txns) = Some (s1, txns[i := t1])"
    and mi1: "mvcc_inv (s1, txns[i := t1]) ns1"
    and t1: "is_active t1" "txn_id t1 = txn_id (txns ! i)" by blast
  let ?txns1 = "txns[i := t1]"
  from j have j1: "j < length ?txns1" by simp
  have actj1: "is_active (?txns1 ! j)" and idj1: "txn_id (?txns1 ! j) = txn_id (txns ! j)"
    using t1 actj i by (simp_all add: nth_list_update)
  let ?tj = "?txns1 ! j"
  from insert_then_commit [OF mi1 j1 actj1, of k v2 c2] obtain s2 a ch s3 ns3 where
    ins: "mvcc_insert_element s1 (Some ?tj) k v2 c2
            = Some (0, s2, Some (add_modified_node ?tj a))"
    and c: "commit_transaction s2 (Some (add_modified_node ?tj a))
             = Some (True, s3, Some ((add_modified_node ?tj a)\<lparr>state := COMMITTED\<rparr>))"
    and kv3: "key_versions s3 k = Some (commit_version (Version v2 (txn_id ?tj) # ch)
                                          (txn_id ?tj))"
    and inv3: "skiplist_inv s3 ns3"
    by blast
  let ?tj2 = "add_modified_node ?tj a"
  from ins j1 have st2: "mvcc_step (MInsert j k v2 c2) (s1, ?txns1) = Some (s2, ?txns1[j := ?tj2])"
    by (simp add: handle_def store_def)
  from j1 have h: "handle (?txns1[j := ?tj2]) j = Some ?tj2" by (simp add: handle_def)
  from c have st3: "mvcc_step (Commit j) (s2, ?txns1[j := ?tj2])
                      = Some (s3, ?txns1[j := ?tj2, j := ?tj2\<lparr>state := COMMITTED\<rparr>])"
    by (simp only: mvcc_step.simps h Option.bind.simps split_conv store_def option.case)
  from st1 st2 st3
  have run: "run_mvcc [MInsert i k v1 c1, MInsert j k v2 c2, Commit j] (s, txns)
               = Some (s3, ?txns1[j := ?tj2, j := ?tj2\<lparr>state := COMMITTED\<rparr>])"
    by (simp only: run_mvcc.simps Option.bind.simps)
  have "\<forall>t3. is_active t3 \<and> txn_id (txns ! j) < txn_id t3 \<and> txn_id t3 < UINT64_MAX
                  \<longrightarrow> mvcc_search_element s3 (Some t3) k = Some (True, Some v2)"
    using search_after_commit [OF inv3 kv3] idj1 by auto
  with run show ?thesis by blast
qed

text \<open>
  C4 as stated does not hold for the optimized list: the second insert of a key
  finds it, returns 1 and leaves the first value in place.
\<close>

theorem C4_optimized_keeps_first_value_counterexample:
  "Option.bind (run_opt [Insert (1::int) ''a'' 0, Insert 1 ''b'' 0] (new_SkipListOptimized 6 0 ''''))
     (\<lambda>s. search_element s 1) = Some (True, Found 1 ''a'')
   \<and> Option.bind (run_opt [Insert (1::int) ''a'' 0] (new_SkipListOptimized 6 0 ''''))
       (\<lambda>s. map_option fst (insert_element s 1 ''b'' 0)) = Some 1"
  by code_simp

text \<open>
  C4, amended.  MVCC list: in a state reached by client calls on a fresh list, let
  transactions \<open>i\<close> and \<open>j\<close> (the same one or two) be active; after
  \<open>insert_element(i, k, v\<^sub>1)\<close>, \<open>insert_element(j, k, v\<^sub>2)\<close> and the commit of \<open>j\<close>,
  \<open>search_element\<close> of \<open>k\<close> inside every active transaction with an id larger than
  that of \<open>j\<close> (and below \<open>UINT64_MAX\<close>) returns \<open>v\<^sub>2\<close>.  Optimized list: in a state
  reached by \<open>insert_element\<close> and \<open>delete_element\<close> calls on a fresh list,
  \<open>insert_element(k, v\<^sub>1)\<close> followed by \<open>insert_element(k, v\<^sub>2)\<close> both return; the
  second returns 1 and changes nothing; the lookup of \<open>k\<close> then finds a value,
  which is \<open>v\<^sub>1\<close> when the first call returned 0, and the value the key had before
  when it returned 1 (the first call changed nothing either); it is never set to
  \<open>v\<^sub>2\<close> by these calls.
\<close>

theorem C4_insert_twice:
  assumes "run_mvcc ops (new_SkipListMVCC ml hk, []) = Some (s, txns)"
    and "i < length txns" and "j < length txns"
    and "is_active (txns ! i)" and "is_active (txns ! j)"
    and "run_opt ops2 (new_SkipListOptimized ml' hk' hv') = Some so"
  shows "(\<exists>s3 txns3. run_mvcc [MInsert i k v1 c1, MInsert j k v2 c2, Commit j] (s, txns)
                       = Some (s3, txns3)
           \<and> (\<forall>t3. is_active t3 \<and> txn_id (txns ! j) < txn_id t3 \<and> txn_id t3 < UINT64_MAX
                  \<longrightarrow> mvcc_search_element s3 (Some t3) k = Some (True, Some v2)))
       \<and> (\<exists>r s1 w. insert_element so k' w1 d1 = Some (r, s1)
           \<and> insert_element s1 k' w2 d2 = Some (1, s1)
           \<and> search_element s1 k' = Some (True, Found k' w)
           \<and> (r = 0 \<longrightarrow> w = w1)
           \<and> (r \<noteq> 0 \<longrightarrow> s1 = so))"
proof
  from reachable_mvcc [OF assms(1)] obtain ns where mi: "mvcc_inv (s, txns) ns" by blast
  show "\<exists>s3 txns3. run_mvcc [MInsert i k v1 c1, MInsert j k v2 c2, Commit j] (s, txns)
                       = Some (s3, txns3)
           \<and> (\<forall>t3. is_active t3 \<and> txn_id (txns ! j) < txn_id t3 \<and> txn_id t3 < UINT64_MAX
                  \<longrightarrow> mvcc_search_element s3 (Some t3) k = Some (True, Some v2))"
    by (rule insert_insert_commit [OF mi assms(2,3,4,5)])
next
  from reachable_opt [OF assms(6)] obtain ns where "opt_inv so ns" by blast
  then show "\<exists>r s1 w. insert_element so k' w1 d1 = Some (r, s1)
           \<and> insert_element s1 k' w2 d2 = Some (1, s1)
           \<and> search_element s1 k' = Some (True, Found k' w)
           \<and> (r = 0 \<longrightarrow> w = w1)
           \<and> (r \<noteq> 0 \<longrightarrow> s1 = so)"
    by (rule insert_twice)
qed

theorem C4_insert_twice_witness:
  "Option.bind (run_mvcc [Begin, Begin, Begin, MInsert 0 (5::int) ''a'' 1, MInsert 1 5 ''b'' 0,
                          Commit 1]
                  (new_SkipListMVCC 6 0, []))
     (\<lambda>c. mvcc_search_element (fst c) (Some (snd c ! 2)) 5) = Some (True, Some ''b'')
   \<and> Option.bind (run_opt [Insert (5::int) ''a'' 1, Insert 5 ''b'' 0] (new_SkipListOptimized 6 0 ''''))
       (\<lambda>s. search_element s 5) = Some (True, Found 5 ''a'')"
proof -
  let ?pre = "[Begin, Begin, Begin] :: (int, string) mvcc_op list"
  let ?mid = "[MInsert 0 (5::int) ''a'' 1, MInsert 1 5 ''b'' 0, Commit 1]"
  let ?init = "(new_SkipListMVCC 6 (0::int) :: (int, string) SkipListMVCC, [])"
  let ?oinit = "new_SkipListOptimized 6 (0::int) ''''"
  have e: "map_option (\<lambda>c. (length (snd c), is_active (snd c ! 0), is_active (snd c ! 1),
                             txn_id (snd c ! 1)))
             (run_mvcc ?pre ?init) = Some (3, True, True, 2)"
    by code_simp
  have e3: "map_option (\<lambda>c. (is_active (snd c ! 2), txn_id (snd c ! 2)))
              (run_mvcc (?pre @ ?mid) ?init) = Some (True, 3)"
    by code_simp
  from run_mvcc_inv [OF new_SkipListMVCC_inv, of ?pre 6 0] obtain s txns
    where r: "run_mvcc ?pre ?init = Some (s, txns)" by (metis surj_pair)
  from e have f: "length txns = 3" "is_active (txns ! 0)" "is_active (txns ! 1)"
    "txn_id (txns ! 1) = 2"
    by (simp_all only: r option.map option.inject snd_conv prod.inject)
  from f(1) have l: "0 < length txns" "1 < length txns" by simp_all
  have ro: "run_opt [] ?oinit = Some ?oinit" by simp
  from C4_insert_twice [OF r l f(2,3) ro, of 5 "''a''" 1 "''b''" 0 5 "''a''" 1 "''b''" 0]
  obtain s3 txns3 r' s1 w where
    m: "run_mvcc ?mid (s, txns) = Some (s3, txns3)"
    and v: "\<forall>t3. is_active t3 \<and> txn_id (txns ! 1) < txn_id t3 \<and> txn_id t3 < UINT64_MAX
                  \<longrightarrow> mvcc_search_element s3 (Some t3) 5 = Some (True, Some ''b'')"
    and o1: "insert_element ?oinit 5 ''a'' 1 = Some (r', s1)"
    and o2: "insert_element s1 5 ''b'' 0 = Some (1, s1)"
    and o3: "search_element s1 5 = Some (True, Found 5 w)"
    and o4: "r' = 0 \<longrightarrow> w = ''a''"
    by blast
  have r0: "map_option fst (insert_element ?oinit 5 ''a'' 1) = Some 0" by code_simp
  with o1 o4 have w: "w = ''a''" by simp
  from o1 o2 o3 w
  have 2: "Option.bind (run_opt [Insert (5::int) ''a'' 1, Insert 5 ''b'' 0] ?oinit)
             (\<lambda>s. search_element s 5) = Some (True, Found 5 ''a'')"
    by (simp only: run_opt.simps Option.bind.simps split_conv)
  have "run_mvcc (?pre @ ?mid) ?init = Option.bind (run_mvcc ?pre ?init) (run_mvcc ?mid)"
    by (rule run_mvcc_append)
  also have "\<dots> = Some (s3, txns3)" by (simp only: r m Option.bind.simps)
  finally have full: "run_mvcc (?pre @ ?mid) ?init = Some (s3, txns3)" .
  from e3 have g: "is_active (txns3 ! 2)" "txn_id (txns3 ! 2) = 3"
    by (simp_all only: full option.map option.inject snd_conv prod.inject)
  from f(4) g(2) have "txn_id (txns ! 1) < txn_id (txns3 ! 2) \<and> txn_id (txns3 ! 2) < UINT64_MAX"
    by (simp add: UINT64_MAX_def)
  with v g(1) have "mvcc_search_element s3 (Some (txns3 ! 2)) 5 = Some (True, Some ''b'')"
    by blast
  then have "Option.bind (run_mvcc (?pre @ ?mid) ?init)
               (\<lambda>c. mvcc_search_element (fst c) (Some (snd c ! 2)) 5) = Some (True, Some ''b'')"
    by (simp only: full Option.bind.simps fst_conv snd_conv)
  then have 1: "Option.bind (run_mvcc [Begin, Begin, Begin, MInsert 0 (5::int) ''a'' 1,
                                        MInsert 1 5 ''b'' 0, Commit 1] ?init)
               (\<lambda>c. mvcc_search_element (fst c) (Some (snd c ! 2)) 5) = Some (True, Some ''b'')"
    by (simp only: append.simps)
  from 1 2 show ?thesis by (rule conjI)
qed

end
